theory Spec2Isabelle
  imports Main "HOL-Library.Word" "HOL-Library.Sublist"
begin

section \<open>Strings and the standard-library functions the package calls\<close>

text \<open>
  A Go string is a sequence of bytes; it is modelled as a \<open>string\<close>, one \<open>char\<close> per byte.
  The functions of this section belong to Go's standard library (packages \<open>strings\<close> and
  \<open>fmt\<close>), not to the package itself; they are written out from their documentation so that
  the package's functions can be evaluated.
\<close>

definition tab :: char where
  "tab = CHR 0x09"

definition nl :: char where
  "nl = CHR 0x0A"

text \<open>\<open>strings.Split(s, sep)\<close> for a separator of one byte: the pieces between the separators,
  \<open>n + 1\<close> pieces for \<open>n\<close> separators.\<close>

fun Split :: "string \<Rightarrow> char \<Rightarrow> string list" where
  "Split [] sep = [[]]"
| "Split (c # cs) sep =
     (if c = sep then [] # Split cs sep
      else (case Split cs sep of [] \<Rightarrow> [[c]] | l # ls \<Rightarrow> (c # l) # ls))"

text \<open>\<open>strings.Join(elems, sep)\<close>.\<close>

fun Join :: "string list \<Rightarrow> string \<Rightarrow> string" where
  "Join [] sep = []"
| "Join [x] sep = x"
| "Join (x # y # zs) sep = x @ sep @ Join (y # zs) sep"

text \<open>\<open>strings.LastIndex(s, sep)\<close> for a separator of one byte: the index of its last
  occurrence, or \<open>-1\<close>.\<close>

fun LastIndexFrom :: "nat \<Rightarrow> string \<Rightarrow> char \<Rightarrow> int" where
  "LastIndexFrom i [] sep = -1"
| "LastIndexFrom i (c # cs) sep =
     (let r = LastIndexFrom (Suc i) cs sep
      in if 0 \<le> r then r else if c = sep then int i else -1)"

definition LastIndex :: "string \<Rightarrow> char \<Rightarrow> int" where
  "LastIndex s sep = LastIndexFrom 0 s sep"

text \<open>The verb \<open>%d\<close> of package \<open>fmt\<close>: a signed integer in decimal.\<close>

definition digit :: "nat \<Rightarrow> char" where
  "digit d = ''0123456789'' ! d"

fun digits :: "nat \<Rightarrow> string" where
  "digits n = (if n < 10 then [digit n] else digits (n div 10) @ [digit (n mod 10)])"

declare digits.simps [simp del]

definition fmt_d :: "int \<Rightarrow> string" where
  "fmt_d i = (if i < 0 then CHR ''-'' # digits (nat (- i)) else digits (nat i))"

text \<open>
  \<open>strings.TrimSpace\<close> removes leading and trailing white space "as defined by Unicode":
  the code points with the property White_Space. On the bytes of a string these are the six
  ASCII characters tab, line feed, vertical tab, form feed, carriage return and space, and the
  UTF-8 encodings of U+0085, U+00A0, U+1680, U+2000 to U+200A, U+2028, U+2029, U+202F, U+205F
  and U+3000. \<open>spaceWidth s\<close> is the width in bytes of the white-space rune that starts \<open>s\<close>,
  and 0 when there is none.
\<close>

definition asciiSpace :: "char \<Rightarrow> bool" where
  "asciiSpace c \<longleftrightarrow>
     c = CHR 0x09 \<or> c = CHR 0x0A \<or> c = CHR 0x0B \<or> c = CHR 0x0C \<or> c = CHR 0x0D \<or> c = CHR 0x20"

definition wideSpaces :: "string list" where
  "wideSpaces =
    [[CHR 0xC2, CHR 0x85], [CHR 0xC2, CHR 0xA0], [CHR 0xE1, CHR 0x9A, CHR 0x80],
     [CHR 0xE2, CHR 0x80, CHR 0x80], [CHR 0xE2, CHR 0x80, CHR 0x81],
     [CHR 0xE2, CHR 0x80, CHR 0x82], [CHR 0xE2, CHR 0x80, CHR 0x83],
     [CHR 0xE2, CHR 0x80, CHR 0x84], [CHR 0xE2, CHR 0x80, CHR 0x85],
     [CHR 0xE2, CHR 0x80, CHR 0x86], [CHR 0xE2, CHR 0x80, CHR 0x87],
     [CHR 0xE2, CHR 0x80, CHR 0x88], [CHR 0xE2, CHR 0x80, CHR 0x89],
     [CHR 0xE2, CHR 0x80, CHR 0x8A], [CHR 0xE2, CHR 0x80, CHR 0xA8],
     [CHR 0xE2, CHR 0x80, CHR 0xA9], [CHR 0xE2, CHR 0x80, CHR 0xAF],
     [CHR 0xE2, CHR 0x81, CHR 0x9F], [CHR 0xE3, CHR 0x80, CHR 0x80]]"

definition spaceWidth :: "string \<Rightarrow> nat" where
  "spaceWidth s =
     (case s of [] \<Rightarrow> 0
      | c # cs \<Rightarrow>
          if asciiSpace c then 1
          else (case find (\<lambda>r. prefix r s) wideSpaces of None \<Rightarrow> 0 | Some r \<Rightarrow> length r))"

text \<open>Trimming on the left drops white-space runes while there is one; the fuel is the
  length of the string, which bounds the number of runes.\<close>

fun TrimLeftN :: "nat \<Rightarrow> string \<Rightarrow> string" where
  "TrimLeftN 0 s = s"
| "TrimLeftN (Suc n) s = (if spaceWidth s = 0 then s else TrimLeftN n (drop (spaceWidth s) s))"

definition TrimLeft :: "string \<Rightarrow> string" where
  "TrimLeft s = TrimLeftN (length s) s"

text \<open>On the right, the last rune of \<open>s\<close> is white space when \<open>s\<close> ends with one of the
  encodings: the first byte of each encoding starts a rune and the others continue one, so
  decoding backwards from the end stops at the first byte of the encoding.\<close>

definition spaceWidthEnd :: "string \<Rightarrow> nat" where
  "spaceWidthEnd s =
     (if s = [] then 0
      else if asciiSpace (last s) then 1
      else (case find (\<lambda>r. suffix r s) wideSpaces of None \<Rightarrow> 0 | Some r \<Rightarrow> length r))"

fun TrimRightN :: "nat \<Rightarrow> string \<Rightarrow> string" where
  "TrimRightN 0 s = s"
| "TrimRightN (Suc n) s =
     (if spaceWidthEnd s = 0 then s else TrimRightN n (take (length s - spaceWidthEnd s) s))"

definition TrimRight :: "string \<Rightarrow> string" where
  "TrimRight s = TrimRightN (length s) s"

definition TrimSpace :: "string \<Rightarrow> string" where
  "TrimSpace s = TrimRight (TrimLeft s)"

section \<open>Values passed as \<open>interface{}\<close>\<close>

text \<open>
  The helpers take operands of type \<open>interface{}\<close>. The code looks at an operand in four
  ways: whether it is the nil interface, the kind and name of its dynamic type
  (\<open>reflect.TypeOf\<close>), whether its dynamic type is exactly \<open>string\<close> (the type assertion
  \<open>value.(string)\<close>), and what \<open>fmt\<close> prints for it. A value is modelled by these:
  \<open>StringVal\<close> and \<open>BoolVal\<close> are the values of the predeclared types \<open>string\<close> and
  \<open>bool\<close>; \<open>OtherVal ty r\<close> is a value of any other dynamic type \<open>ty\<close> (a defined type
  such as \<open>type Colour string\<close> included, whose kind is still \<open>String\<close>) that the verb
  \<open>%v\<close> prints as \<open>r\<close>.
\<close>

datatype kind =
    KInvalid | KBool | KInt | KInt8 | KInt16 | KInt32 | KInt64
  | KUint | KUint8 | KUint16 | KUint32 | KUint64 | KUintptr
  | KFloat32 | KFloat64 | KComplex64 | KComplex128
  | KArray | KChan | KFunc | KInterface | KMap | KPtr | KSlice | KString | KStruct
  | KUnsafePointer

record gotype =
  tyName :: string
  tyKind :: kind

datatype iface = NilIface | StringVal string | BoolVal bool | OtherVal gotype string

text \<open>\<open>reflect.TypeOf\<close>; of the nil interface it is the nil \<open>Type\<close>.\<close>

fun TypeOf :: "iface \<Rightarrow> gotype option" where
  "TypeOf NilIface = None"
| "TypeOf (StringVal s) = Some \<lparr>tyName = ''string'', tyKind = KString\<rparr>"
| "TypeOf (BoolVal b) = Some \<lparr>tyName = ''bool'', tyKind = KBool\<rparr>"
| "TypeOf (OtherVal ty r) = Some ty"

text \<open>The verb \<open>%v\<close>, and \<open>fmt.Sprintln\<close>: the operands in their default format, a space
  between every two of them, and a newline at the end.\<close>

fun fmt_v :: "iface \<Rightarrow> string" where
  "fmt_v NilIface = ''<nil>''"
| "fmt_v (StringVal s) = s"
| "fmt_v (BoolVal b) = (if b then ''true'' else ''false'')"
| "fmt_v (OtherVal ty r) = r"

definition Sprintln :: "iface list \<Rightarrow> string" where
  "Sprintln args = Join (map fmt_v args) '' '' @ [nl]"

text \<open>
  What the package takes from its surroundings and cannot be computed from its own text:
  the answer of \<open>runtime.Caller(skip)\<close> inside \<open>decorate\<close> (the file and line of the frame
  \<open>skip\<close> levels up, or \<open>None\<close> when \<open>ok\<close> is false), \<open>reflect.DeepEqual\<close>,
  \<open>strconv.Quote\<close>, and the spare capacity the runtime adds when \<open>append\<close> must allocate
  (a function of the old capacity). Every theorem holds for all of them.
\<close>

record env =
  Caller :: "int \<Rightarrow> (string \<times> int) option"
  DeepEqual :: "iface \<Rightarrow> iface \<Rightarrow> bool"
  Quote :: "string \<Rightarrow> string"
  growslice :: "nat \<Rightarrow> nat"

section \<open>The heap: handles, accumulators, slices and the host test context\<close>

text \<open>
  The code shares objects through pointers: every handle derived from a root handle points
  to the same accumulator, and a slice points into an array that \<open>append\<close> may write in
  place. The heap is therefore explicit. It is the list of the objects allocated so far; the
  address of an object is its position, so an allocation appends to the list and no two
  objects share an address. A pointer is nil or an address. A slice is the address of its
  array with a length and a capacity (every slice of this package starts at the first
  element of its array).
\<close>

datatype ptr = NilPtr | Addr nat

record slice =
  sbase :: ptr
  slen :: nat
  scap :: nat

text \<open>The accumulator's mutex is left out: one goroutine is modelled, and every method
  locks on entry and unlocks on return. Go's \<open>int\<close> is taken to be 64 bits wide, so
  \<open>failCount++\<close> and \<open>callDepth += depth\<close> wrap around.\<close>

record accumulator =
  failCount :: "64 word"
  "output" :: slice

record T =
  test :: ptr
  "context" :: ptr
  caseName :: string
  label :: string
  callDepth :: "64 word"

text \<open>The host's \<open>testing.T\<close>, as far as the facade drives it.\<close>

record testingT =
  failed :: bool
  skipped :: bool
  finished :: bool

datatype object = Handle T | Acc accumulator | Array "string list" | Test testingT

type_synonym heap = "object list"

definition deref :: "heap \<Rightarrow> ptr \<Rightarrow> object option" where
  "deref h p = (case p of NilPtr \<Rightarrow> None | Addr a \<Rightarrow> if a < length h then Some (h ! a) else None)"

definition getT :: "heap \<Rightarrow> ptr \<Rightarrow> T option" where
  "getT h p = (case deref h p of Some (Handle t) \<Rightarrow> Some t | _ \<Rightarrow> None)"

definition getAcc :: "heap \<Rightarrow> ptr \<Rightarrow> accumulator option" where
  "getAcc h p = (case deref h p of Some (Acc a) \<Rightarrow> Some a | _ \<Rightarrow> None)"

definition getArr :: "heap \<Rightarrow> ptr \<Rightarrow> string list option" where
  "getArr h p = (case deref h p of Some (Array xs) \<Rightarrow> Some xs | _ \<Rightarrow> None)"

definition getTest :: "heap \<Rightarrow> ptr \<Rightarrow> testingT option" where
  "getTest h p = (case deref h p of Some (Test c) \<Rightarrow> Some c | _ \<Rightarrow> None)"

definition store :: "ptr \<Rightarrow> object \<Rightarrow> heap \<Rightarrow> heap" where
  "store p x h = (case p of NilPtr \<Rightarrow> h | Addr a \<Rightarrow> h[a := x])"

text \<open>
  A call returns, or ends the goroutine (\<open>runtime.Goexit\<close>, from \<open>FailNow\<close> and
  \<open>SkipNow\<close>), or panics; in each case the heap it leaves is part of the result.
\<close>

datatype 'a outcome = Return 'a | Goexit | Panic

type_synonym 'a go = "heap \<Rightarrow> 'a outcome \<times> heap"

definition thenDo :: "'a go \<Rightarrow> ('a \<Rightarrow> 'b go) \<Rightarrow> 'b go" where
  "thenDo m f h =
     (case m h of
        (Return x, h') \<Rightarrow> f x h'
      | (Goexit, h') \<Rightarrow> (Goexit, h')
      | (Panic, h') \<Rightarrow> (Panic, h'))"

definition ret :: "'a \<Rightarrow> 'a go" where
  "ret x h = (Return x, h)"

definition panic :: "'a go" where
  "panic h = (Panic, h)"

text \<open>Reading through a pointer: a nil pointer (or one that holds no object of the type)
  panics.\<close>

definition loadT :: "ptr \<Rightarrow> T go" where
  "loadT p h = (case getT h p of None \<Rightarrow> (Panic, h) | Some t \<Rightarrow> (Return t, h))"

definition loadAcc :: "ptr \<Rightarrow> accumulator go" where
  "loadAcc p h = (case getAcc h p of None \<Rightarrow> (Panic, h) | Some a \<Rightarrow> (Return a, h))"

definition loadTest :: "ptr \<Rightarrow> testingT go" where
  "loadTest p h = (case getTest h p of None \<Rightarrow> (Panic, h) | Some c \<Rightarrow> (Return c, h))"

definition new :: "object \<Rightarrow> ptr go" where
  "new x h = (Return (Addr (length h)), h @ [x])"

section \<open>The accumulator\<close>

text \<open>Slices: \<open>make\<close>, indexing (a run-time panic out of range), the elements of a slice, and
  \<open>append\<close>, which writes in place while the capacity allows and otherwise moves the
  elements to a new array.\<close>

definition make :: "nat \<Rightarrow> slice go" where
  "make n h = (Return \<lparr>sbase = Addr (length h), slen = n, scap = n\<rparr>, h @ [Array (replicate n [])])"

definition elems :: "heap \<Rightarrow> slice \<Rightarrow> string list" where
  "elems h s = (case getArr h (sbase s) of None \<Rightarrow> [] | Some xs \<Rightarrow> take (slen s) xs)"

definition index :: "slice \<Rightarrow> nat \<Rightarrow> string go" where
  "index s i h =
     (case getArr h (sbase s) of
        None \<Rightarrow> (Panic, h)
      | Some xs \<Rightarrow> if i < slen s \<and> i < length xs then (Return (xs ! i), h) else (Panic, h))"

definition setIndex :: "slice \<Rightarrow> nat \<Rightarrow> string \<Rightarrow> unit go" where
  "setIndex s i v h =
     (case getArr h (sbase s) of
        None \<Rightarrow> (Panic, h)
      | Some xs \<Rightarrow>
          if i < slen s \<and> i < length xs then (Return (), store (sbase s) (Array (xs[i := v])) h)
          else (Panic, h))"

definition append_go :: "env \<Rightarrow> slice \<Rightarrow> string \<Rightarrow> slice go" where
  "append_go env s v h =
     (if slen s < scap s then
        (case getArr h (sbase s) of
           None \<Rightarrow> (Panic, h)
         | Some xs \<Rightarrow>
             if slen s < length xs
             then (Return (s\<lparr>slen := slen s + 1\<rparr>), store (sbase s) (Array (xs[slen s := v])) h)
             else (Panic, h))
      else
        (Return \<lparr>sbase = Addr (length h), slen = slen s + 1,
                 scap = slen s + 1 + growslice env (scap s)\<rparr>,
         h @ [Array (elems h s @ [v] @ replicate (growslice env (scap s)) [])]))"

definition getFailCount :: "ptr \<Rightarrow> (64 word) go" where
  "getFailCount a = thenDo (loadAcc a) (\<lambda>acc. ret (failCount acc))"

text \<open>The loop of \<open>outputCopy\<close>: \<open>for i, v := range a.output { out[i] = v }\<close>, over the
  indices that remain.\<close>

fun copyLoop :: "slice \<Rightarrow> slice \<Rightarrow> nat list \<Rightarrow> unit go" where
  "copyLoop src out [] = ret ()"
| "copyLoop src out (i # rest) =
     thenDo (index src i) (\<lambda>v. thenDo (setIndex out i v) (\<lambda>_. copyLoop src out rest))"

definition outputCopy :: "ptr \<Rightarrow> slice go" where
  "outputCopy a =
     thenDo (loadAcc a) (\<lambda>acc.
     thenDo (make (slen (output acc))) (\<lambda>out.
     thenDo (copyLoop (output acc) out [0..<slen (output acc)]) (\<lambda>_.
     ret out)))"

definition log :: "env \<Rightarrow> ptr \<Rightarrow> string \<Rightarrow> unit go" where
  "log env a s =
     thenDo (loadAcc a) (\<lambda>acc.
     thenDo (append_go env (output acc) (TrimSpace s)) (\<lambda>out h.
       (Return (), store a (Acc (acc\<lparr>output := out\<rparr>)) h)))"

definition incFailCount :: "ptr \<Rightarrow> unit go" where
  "incFailCount a =
     thenDo (loadAcc a) (\<lambda>acc h.
       (Return (), store a (Acc (acc\<lparr>failCount := failCount acc + 1\<rparr>)) h))"

section \<open>The host test context\<close>

text \<open>\<open>testing.T\<close> is the host's: \<open>Fail\<close> marks the test failed and returns, \<open>FailNow\<close>
  marks it failed and \<open>SkipNow\<close> marks it skipped, and both then end the goroutine.\<close>

definition testing_Fail :: "ptr \<Rightarrow> unit go" where
  "testing_Fail c =
     thenDo (loadTest c) (\<lambda>x h. (Return (), store c (Test (x\<lparr>failed := True\<rparr>)) h))"

definition testing_FailNow :: "ptr \<Rightarrow> unit go" where
  "testing_FailNow c =
     thenDo (loadTest c) (\<lambda>x h. (Goexit, store c (Test (x\<lparr>failed := True, finished := True\<rparr>)) h))"

definition testing_SkipNow :: "ptr \<Rightarrow> unit go" where
  "testing_SkipNow c =
     thenDo (loadTest c) (\<lambda>x h. (Goexit, store c (Test (x\<lparr>skipped := True, finished := True\<rparr>)) h))"

definition testing_Failed :: "ptr \<Rightarrow> bool go" where
  "testing_Failed c = thenDo (loadTest c) (\<lambda>x. ret (failed x))"

definition testing_Skipped :: "ptr \<Rightarrow> bool go" where
  "testing_Skipped c = thenDo (loadTest c) (\<lambda>x. ret (skipped x))"

section \<open>The facade\<close>

text \<open>
  The functions of \<open>testy.go\<close>. A method with a pointer receiver
  takes the address of the handle and reads the handle where the code first uses it; a nil
  receiver panics there. \<open>New\<close>, which only computes the case name for \<open>NewCase\<close> from the
  name of the calling function, and \<open>Nil\<close> and \<open>NotNil\<close> with \<open>checkNil\<close> are left out.
\<close>

definition NewCase :: "ptr \<Rightarrow> string \<Rightarrow> ptr go" where
  "NewCase t name =
     thenDo (new (Acc \<lparr>failCount = 0, output = \<lparr>sbase = NilPtr, slen = 0, scap = 0\<rparr>\<rparr>)) (\<lambda>a.
     new (Handle \<lparr>test = t, context = a, caseName = name, label = [], callDepth = 1\<rparr>))"

text \<open>\<open>Label\<close> and \<open>Uplevel\<close> have value receivers: the call copies the handle, the method
  changes the copy and returns its address.\<close>

definition Label :: "ptr \<Rightarrow> iface list \<Rightarrow> ptr go" where
  "Label p s =
     thenDo (loadT p) (\<lambda>t. new (Handle (t\<lparr>label := TrimSpace (Sprintln s) @ '': ''\<rparr>)))"

definition Uplevel :: "ptr \<Rightarrow> 64 word \<Rightarrow> ptr go" where
  "Uplevel p depth =
     thenDo (loadT p) (\<lambda>t. new (Handle (t\<lparr>callDepth := callDepth t + depth\<rparr>)))"



definition FailCount :: "ptr \<Rightarrow> (64 word) go" where
  "FailCount p = thenDo (loadT p) (\<lambda>t. getFailCount (context t))"

definition Output :: "ptr \<Rightarrow> slice go" where
  "Output p = thenDo (loadT p) (\<lambda>t. outputCopy (context t))"

text \<open>\<open>decorate\<close>: the file name cut at its last separator, and the loop that writes the
  lines into the buffer.\<close>

definition baseName :: "string \<Rightarrow> string" where
  "baseName file =
     (if 0 \<le> LastIndex file CHR ''/'' then drop (nat (LastIndex file CHR ''/'' + 1)) file
      else if 0 \<le> LastIndex file (CHR 0x5C) then drop (nat (LastIndex file (CHR 0x5C) + 1)) file
      else file)"

fun writeLines :: "string \<Rightarrow> nat \<Rightarrow> string list \<Rightarrow> string" where
  "writeLines buf i [] = buf"
| "writeLines buf i (line # rest) =
     writeLines ((if 0 < i then buf @ [nl, tab] else buf) @ line) (Suc i) rest"

definition decorate :: "env \<Rightarrow> T \<Rightarrow> string \<Rightarrow> string" where
  "decorate env t s =
     (let (file, line) =
            (case Caller env (sint (1 + callDepth t)) of
               Some (file, line) \<Rightarrow> (baseName file, line)
             | None \<Rightarrow> (''???'', 1));
          buf = [tab] @ file @ '':'' @ fmt_d line @ '': '' @ label t;
          lines = Split s nl;
          lines = (if 1 < length lines \<and> last lines = [] then butlast lines else lines)
      in writeLines buf 0 lines @ [nl])"

subsection \<open>Helper functions\<close>

definition True' :: "env \<Rightarrow> ptr \<Rightarrow> bool \<Rightarrow> unit go" where
  "True' env p cond =
     (if \<not> cond then
        thenDo (loadT p) (\<lambda>t.
        thenDo (incFailCount (context t)) (\<lambda>_.
        thenDo (log env (context t) (decorate env t ''Expression was not true'')) (\<lambda>_.
        testing_Fail (test t))))
      else ret ())"

definition False' :: "env \<Rightarrow> ptr \<Rightarrow> bool \<Rightarrow> unit go" where
  "False' env p cond =
     (if cond then
        thenDo (loadT p) (\<lambda>t.
        thenDo (incFailCount (context t)) (\<lambda>_.
        thenDo (log env (context t) (decorate env t ''Expression was not false'')) (\<lambda>_.
        testing_Fail (test t))))
      else ret ())"

text \<open>\<open>diag\<close> renders one operand. In the case \<open>reflect.String\<close> it asserts
  \<open>value.(string)\<close>, which panics when the dynamic type is not \<open>string\<close> itself.\<close>

definition diag :: "env \<Rightarrow> string \<Rightarrow> iface \<Rightarrow> string go" where
  "diag env prefix' v =
     (if v = NilIface then ret (prefix' @ '': nil'' @ [nl])
      else
        (case TypeOf v of
           None \<Rightarrow> panic
         | Some vType \<Rightarrow>
             if tyKind vType = KString then
               (case v of
                  StringVal str \<Rightarrow> ret (prefix' @ '': '' @ Quote env str @ [nl])
                | _ \<Rightarrow> panic)
             else if tyKind vType = KBool then ret (prefix' @ '': '' @ fmt_v v @ [nl])
             else ret (prefix' @ '': '' @ fmt_v v @ '' ('' @ tyName vType @ '')'' @ [nl])))"

definition Equal :: "env \<Rightarrow> ptr \<Rightarrow> iface \<Rightarrow> iface \<Rightarrow> unit go" where
  "Equal env p got want =
     (if got = NilIface \<or> want = NilIface then
        thenDo (loadT p) (\<lambda>t.
        thenDo (incFailCount (context t)) (\<lambda>_.
        thenDo (diag env ''   Got'' got) (\<lambda>g.
        thenDo (diag env ''Wanted'' want) (\<lambda>w.
        thenDo (log env (context t)
                 (decorate env t (''Can't safely compare nil values for equality:'' @ [nl] @ g @ w))) (\<lambda>_.
        testing_Fail (test t))))))
      else if \<not> DeepEqual env got want then
        thenDo (loadT p) (\<lambda>t.
        thenDo (incFailCount (context t)) (\<lambda>_.
        thenDo (diag env ''   Got'' got) (\<lambda>g.
        thenDo (diag env ''Wanted'' want) (\<lambda>w.
        thenDo (log env (context t)
                 (decorate env t (''Values were not equal:'' @ [nl] @ g @ w))) (\<lambda>_.
        testing_Fail (test t))))))
      else ret ())"

definition Unequal :: "env \<Rightarrow> ptr \<Rightarrow> iface \<Rightarrow> iface \<Rightarrow> unit go" where
  "Unequal env p got want =
     (if got = NilIface \<or> want = NilIface then
        thenDo (loadT p) (\<lambda>t.
        thenDo (incFailCount (context t)) (\<lambda>_.
        thenDo (diag env ''   Got'' got) (\<lambda>g.
        thenDo (diag env ''Got'' want) (\<lambda>w.
        thenDo (log env (context t)
                 (decorate env t (''Can't safely compare nil values for equality:'' @ [nl] @ g @ w))) (\<lambda>_.
        testing_Fail (test t))))))
      else if DeepEqual env got want then
        thenDo (loadT p) (\<lambda>t.
        thenDo (incFailCount (context t)) (\<lambda>_.
        thenDo (diag env ''  Both'' got) (\<lambda>g.
        thenDo (log env (context t)
                 (decorate env t (''Values were not unequal:'' @ [nl] @ g))) (\<lambda>_.
        testing_Fail (test t)))))
      else ret ())"

subsection \<open>Facade functions\<close>

text \<open>The variants ending in \<open>f\<close> format with \<open>fmt.Sprintf(format, args...)\<close>; the model
  takes the formatted string, \<open>msg\<close>, in place of the format and its arguments.\<close>

definition Fail :: "ptr \<Rightarrow> unit go" where
  "Fail p =
     thenDo (loadT p) (\<lambda>t.
     thenDo (incFailCount (context t)) (\<lambda>_.
     testing_Fail (test t)))"

definition FailNow :: "ptr \<Rightarrow> unit go" where
  "FailNow p =
     thenDo (loadT p) (\<lambda>t.
     thenDo (incFailCount (context t)) (\<lambda>_.
     testing_FailNow (test t)))"

definition Failed :: "ptr \<Rightarrow> bool go" where
  "Failed p = thenDo (loadT p) (\<lambda>t. testing_Failed (test t))"

definition Log :: "env \<Rightarrow> ptr \<Rightarrow> iface list \<Rightarrow> unit go" where
  "Log env p args =
     thenDo (loadT p) (\<lambda>t. log env (context t) (decorate env t (Sprintln args)))"

definition Logf :: "env \<Rightarrow> ptr \<Rightarrow> string \<Rightarrow> unit go" where
  "Logf env p msg =
     thenDo (loadT p) (\<lambda>t. log env (context t) (decorate env t msg))"

definition Error :: "env \<Rightarrow> ptr \<Rightarrow> iface list \<Rightarrow> unit go" where
  "Error env p args =
     thenDo (loadT p) (\<lambda>t.
     thenDo (incFailCount (context t)) (\<lambda>_.
     thenDo (log env (context t) (decorate env t (Sprintln args))) (\<lambda>_.
     testing_Fail (test t))))"

definition Errorf :: "env \<Rightarrow> ptr \<Rightarrow> string \<Rightarrow> unit go" where
  "Errorf env p msg =
     thenDo (loadT p) (\<lambda>t.
     thenDo (incFailCount (context t)) (\<lambda>_.
     thenDo (log env (context t) (decorate env t msg)) (\<lambda>_.
     testing_Fail (test t))))"

definition Fatal :: "env \<Rightarrow> ptr \<Rightarrow> iface list \<Rightarrow> unit go" where
  "Fatal env p args =
     thenDo (loadT p) (\<lambda>t.
     thenDo (incFailCount (context t)) (\<lambda>_.
     thenDo (log env (context t) (decorate env t (Sprintln args))) (\<lambda>_.
     testing_FailNow (test t))))"

definition Fatalf :: "env \<Rightarrow> ptr \<Rightarrow> string \<Rightarrow> unit go" where
  "Fatalf env p msg =
     thenDo (loadT p) (\<lambda>t.
     thenDo (incFailCount (context t)) (\<lambda>_.
     thenDo (log env (context t) (decorate env t msg)) (\<lambda>_.
     testing_FailNow (test t))))"

definition Skip :: "env \<Rightarrow> ptr \<Rightarrow> iface list \<Rightarrow> unit go" where
  "Skip env p args =
     thenDo (loadT p) (\<lambda>t.
     thenDo (log env (context t) (decorate env t (Sprintln args))) (\<lambda>_.
     testing_SkipNow (test t)))"

definition Skipf :: "env \<Rightarrow> ptr \<Rightarrow> string \<Rightarrow> unit go" where
  "Skipf env p msg =
     thenDo (loadT p) (\<lambda>t.
     thenDo (log env (context t) (decorate env t msg)) (\<lambda>_.
     testing_SkipNow (test t)))"

definition SkipNow :: "ptr \<Rightarrow> unit go" where
  "SkipNow p = thenDo (loadT p) (\<lambda>t. testing_SkipNow (test t))"

definition Skipped :: "ptr \<Rightarrow> bool go" where
  "Skipped p = thenDo (loadT p) (\<lambda>t. testing_Skipped (test t))"

section \<open>A concrete setting\<close>

text \<open>
  For evaluating the functions at concrete inputs: a test file whose call site is line 17,
  two frames above \<open>decorate\<close>; structural equality for \<open>reflect.DeepEqual\<close>; quoting that
  wraps a string of plain characters in double quotes; and a runtime that doubles the
  capacity. The heap \<open>heap1\<close> holds a host test context at address 0 and the accumulator and
  root handle that \<open>NewCase\<close> makes, at addresses 1 and 2.
\<close>

definition env0 :: env where
  "env0 = \<lparr>Caller = (\<lambda>skip. if skip = 2 then Some (''/src/pkg/example_test.go'', 17) else None),
           DeepEqual = (\<lambda>a b. a = b),
           Quote = (\<lambda>s. [CHR 0x22] @ s @ [CHR 0x22]),
           growslice = (\<lambda>c. c)\<rparr>"

definition heap0 :: heap where
  "heap0 = [Test \<lparr>failed = False, skipped = False, finished = False\<rparr>]"

definition heap1 :: heap where
  "heap1 = snd (NewCase (Addr 0) ''TestExample'' heap0)"

text \<open>The root handle of \<open>heap1\<close>.\<close>

definition root :: T where
  "root = \<lparr>test = Addr 0, context = Addr 1, caseName = ''TestExample'', label = [], callDepth = 1\<rparr>"

text \<open>\<open>heap1\<close> after two calls of \<open>Error\<close> through the root handle.\<close>

definition heap2 :: heap where
  "heap2 = snd (Error env0 (Addr 2) [StringVal ''was not even'']
             (snd (Error env0 (Addr 2) [StringVal ''was not positive''] heap1)))"

definition Colour :: gotype where
  "Colour = \<lparr>tyName = ''example.Colour'', tyKind = KString\<rparr>"

definition intType :: gotype where
  "intType = \<lparr>tyName = ''int'', tyKind = KInt\<rparr>"

text \<open>The same setting with a call site in a file whose path has both separators,
  \<open>a/b\c.go\<close>, at line 1204.\<close>

definition env1 :: env where
  "env1 = env0\<lparr>Caller := (\<lambda>skip. if skip = 2 then Some (''a/b'' @ [CHR 0x5C] @ ''c.go'', 1204) else None)\<rparr>"

section \<open>Well-formed heaps and what a caller observes\<close>

text \<open>
  A slice is valid when its length is within its capacity and its capacity within its
  array (a slice with no array has capacity 0); an accumulator, when its log is a valid
  slice; a handle, when it points to a handle value whose accumulator is valid and whose
  host test context exists. \<open>NewCase\<close> on a host test context makes a valid handle, and
  the logging and failing functions keep the handle they are called on valid.
\<close>

definition validSlice :: "heap \<Rightarrow> slice \<Rightarrow> bool" where
  "validSlice h s \<longleftrightarrow>
     slen s \<le> scap s \<and>
     (case getArr h (sbase s) of None \<Rightarrow> scap s = 0 | Some xs \<Rightarrow> scap s \<le> length xs)"

definition validAcc :: "heap \<Rightarrow> ptr \<Rightarrow> bool" where
  "validAcc h a = (case getAcc h a of None \<Rightarrow> False | Some acc \<Rightarrow> validSlice h (output acc))"

definition validHandle :: "heap \<Rightarrow> ptr \<Rightarrow> bool" where
  "validHandle h p =
     (case getT h p of
        None \<Rightarrow> False
      | Some t \<Rightarrow>
          validAcc h (context t) \<and> (case getTest h (test t) of None \<Rightarrow> False | Some c \<Rightarrow> True))"

text \<open>The state of an accumulator: its fail count and the strings of its log, in order.\<close>

definition accState :: "heap \<Rightarrow> ptr \<Rightarrow> (64 word \<times> string list) option" where
  "accState h a = map_option (\<lambda>acc. (failCount acc, elems h (output acc))) (getAcc h a)"

text \<open>\<open>frame h h'\<close>: no handle and no host test context differs between the two heaps.
  \<open>extends h h'\<close>: every object of \<open>h\<close> is in \<open>h'\<close>, unchanged.\<close>

definition frame :: "heap \<Rightarrow> heap \<Rightarrow> bool" where
  "frame h h' \<longleftrightarrow> (\<forall>q. getT h' q = getT h q) \<and> (\<forall>q. getTest h' q = getTest h q)"

definition extends :: "heap \<Rightarrow> heap \<Rightarrow> bool" where
  "extends h h' \<longleftrightarrow> (\<forall>q x. deref h q = Some x \<longrightarrow> deref h' q = Some x)"

text \<open>\<open>sameAccs h h'\<close>: no handle, accumulator or array differs between the two heaps.
  \<open>finishes finish r c\<close>: on a host test context \<open>c\<close> that exists, the host's method
  \<open>finish\<close> ends with \<open>r\<close> and changes the host test context only.\<close>

definition sameAccs :: "heap \<Rightarrow> heap \<Rightarrow> bool" where
  "sameAccs h h' \<longleftrightarrow>
     (\<forall>q. getT h' q = getT h q) \<and> (\<forall>a. getAcc h' a = getAcc h a) \<and> (\<forall>b. getArr h' b = getArr h b)"

definition finishes :: "(ptr \<Rightarrow> unit go) \<Rightarrow> unit outcome \<Rightarrow> ptr \<Rightarrow> bool" where
  "finishes finish r c \<longleftrightarrow>
     (\<forall>h x. getTest h c = Some x \<longrightarrow>
        (\<exists>h'. finish c h = (r, h') \<and> sameAccs h h' \<and> getTest h' c \<noteq> None))"

section \<open>The formats, in the words of the specification\<close>

text \<open>
  The message with one newline at its end removed, if it has one; the part of a file name
  that the location shows, which is the part after the last \<open>/\<close> if the name has one, and
  otherwise the part after the last backslash if it has one; and the location \<open>file:line\<close>,
  which is \<open>???:1\<close> when the frame cannot be resolved.
\<close>

definition chomp :: "string \<Rightarrow> string" where
  "chomp s = (if s \<noteq> [] \<and> last s = nl then butlast s else s)"

definition afterLast :: "char \<Rightarrow> string \<Rightarrow> string" where
  "afterLast sep s = rev (takeWhile (\<lambda>c. c \<noteq> sep) (rev s))"

definition fileSegment :: "string \<Rightarrow> string" where
  "fileSegment file =
     (if CHR ''/'' \<in> set file then afterLast CHR ''/'' file
      else if CHR 0x5C \<in> set file then afterLast (CHR 0x5C) file
      else file)"

definition location :: "env \<Rightarrow> T \<Rightarrow> string" where
  "location env t =
     (case Caller env (sint (1 + callDepth t)) of
        None \<Rightarrow> ''???:1''
      | Some (file, line) \<Rightarrow> fileSegment file @ '':'' @ fmt_d line)"

text \<open>The final segment of a path where both \<open>/\<close> and the backslash separate segments:
  the part after the last occurrence of either.\<close>

definition finalSegment :: "string \<Rightarrow> string" where
  "finalSegment file = rev (takeWhile (\<lambda>c. c \<noteq> CHR ''/'' \<and> c \<noteq> CHR 0x5C) (rev file))"

text \<open>The integer that a decimal numeral denotes, read digit by digit, with an optional
  minus sign in front.\<close>

definition digitValue :: "char \<Rightarrow> nat" where
  "digitValue c = of_char c - 48"

definition decimalValue :: "string \<Rightarrow> nat" where
  "decimalValue ds = foldl (\<lambda>a c. 10 * a + digitValue c) 0 ds"

definition decimalInt :: "string \<Rightarrow> int" where
  "decimalInt s =
     (case s of
        [] \<Rightarrow> 0
      | c # ds \<Rightarrow> if c = CHR ''-'' then - int (decimalValue ds) else int (decimalValue s))"


text \<open>The label of the handle a call returned.\<close>

definition labelOf :: "ptr outcome \<times> heap \<Rightarrow> string option" where
  "labelOf r = (case r of (Return q, h) \<Rightarrow> map_option label (getT h q) | _ \<Rightarrow> None)"

text \<open>The bytes that occur in the encoding of a white-space rune.\<close>

definition spaceByte :: "char \<Rightarrow> bool" where
  "spaceByte c \<longleftrightarrow> asciiSpace c \<or> c \<in> set (concat wideSpaces)"

text \<open>
  What \<open>diag\<close> prints for an operand after the prefix, in the words of the specification:
  \<open>nil\<close>, a quoted string, a boolean, or the value with its type in parentheses. The
  operands for which the type assertion in \<open>diag\<close> panics are the values of kind
  \<open>String\<close> whose type is not \<open>string\<close> itself.
\<close>

definition diagPanics :: "iface \<Rightarrow> bool" where
  "diagPanics v = (case v of OtherVal ty r \<Rightarrow> tyKind ty = KString | _ \<Rightarrow> False)"

definition rendering :: "env \<Rightarrow> iface \<Rightarrow> string" where
  "rendering env v =
     (case v of
        NilIface \<Rightarrow> ''nil''
      | StringVal s \<Rightarrow> Quote env s
      | BoolVal b \<Rightarrow> (if b then ''true'' else ''false'')
      | OtherVal ty r \<Rightarrow> if tyKind ty = KBool then r else r @ '' ('' @ tyName ty @ '')'')"

section \<open>Lemmas on strings\<close>

subsection \<open>Splitting, joining and the loop of decorate\<close>

lemma Split_nonempty: "Split s sep \<noteq> []"
  by (induction s) (auto split: list.splits)

lemma Split_snoc:
  "Split (s @ [c]) sep =
     (if c = sep then Split s sep @ [[]]
      else butlast (Split s sep) @ [last (Split s sep) @ [c]])"
  by (induction s) (auto simp: Split_nonempty split: list.splits)

lemma Split_length_one: "length (Split s sep) = 1 \<longleftrightarrow> sep \<notin> set s"
  by (induction s) (auto simp: Split_nonempty split: list.splits)

lemma Split_trailing:
  "(if 1 < length (Split s nl) \<and> last (Split s nl) = [] then butlast (Split s nl) else Split s nl)
     = Split (chomp s) nl"
proof (cases s rule: rev_cases)
  case Nil
  then show ?thesis by (simp add: chomp_def)
next
  case (snoc ys y)
  show ?thesis
  proof (cases "y = nl")
    case True
    with snoc show ?thesis by (simp add: chomp_def Split_snoc Split_nonempty)
  next
    case False
    with snoc show ?thesis by (simp add: chomp_def Split_snoc Split_nonempty)
  qed
qed

lemma writeLines_pos:
  "0 < i \<Longrightarrow> writeLines buf i ls = buf @ concat (map (\<lambda>l. [nl, tab] @ l) ls)"
  by (induction ls arbitrary: buf i) auto

lemma Join_concat: "Join (l # ls) sep = l @ concat (map (\<lambda>x. sep @ x) ls)"
  by (induction ls arbitrary: l) auto

lemma writeLines_Join: "ls \<noteq> [] \<Longrightarrow> writeLines buf 0 ls = buf @ Join ls [nl, tab]"
  by (cases ls) (simp_all add: writeLines_pos Join_concat)

lemma Join_Cons_head: "Join ((c # l) # ls) sep = c # Join (l # ls) sep"
  by (cases ls) simp_all

lemma Join_Nil_head: "ls \<noteq> [] \<Longrightarrow> Join ([] # ls) sep = sep @ Join ls sep"
  by (cases ls) simp_all

lemma Join_Split_expand:
  "Join (Split s nl) sep = concat (map (\<lambda>c. if c = nl then sep else [c]) s)"
proof (induction s)
  case Nil
  then show ?case by simp
next
  case (Cons c cs)
  show ?case
  proof (cases "c = nl")
    case True
    then show ?thesis by (simp add: Join_Nil_head Split_nonempty Cons.IH)
  next
    case False
    obtain l ls where sp: "Split cs nl = l # ls"
      using Split_nonempty[of cs nl] by (cases "Split cs nl") auto
    with False Cons.IH show ?thesis by (simp add: Join_Cons_head)
  qed
qed

lemma expand_no_nl:
  "nl \<notin> set w \<Longrightarrow> concat (map (\<lambda>c. if c = nl then sep else [c]) w) = w"
  by (induction w) auto

subsection \<open>The last segment of a file name\<close>

lemma afterLast_Cons_in: "sep \<in> set cs \<Longrightarrow> afterLast sep (c # cs) = afterLast sep cs"
  by (simp add: afterLast_def takeWhile_append1)

lemma afterLast_notin: "sep \<notin> set cs \<Longrightarrow> afterLast sep cs = cs"
proof -
  assume "sep \<notin> set cs"
  then have "takeWhile (\<lambda>c. c \<noteq> sep) (rev cs) = rev cs"
    by (intro takeWhile_eq_all_conv[THEN iffD2]) auto
  then show ?thesis by (simp only: afterLast_def rev_rev_ident)
qed

lemma afterLast_length: "sep \<in> set cs \<Longrightarrow> length (afterLast sep cs) < length cs"
proof -
  assume a: "sep \<in> set cs"
  let ?tw = "takeWhile (\<lambda>c. c \<noteq> sep) (rev cs)"
  have ne: "?tw \<noteq> rev cs" using a by auto
  have le: "length ?tw \<le> length (rev cs)" by (rule length_takeWhile_le)
  have "length ?tw \<noteq> length (rev cs)"
  proof
    assume "length ?tw = length (rev cs)"
    then have "?tw = rev cs" using takeWhile_eq_take[of "\<lambda>c. c \<noteq> sep" "rev cs"] by simp
    with ne show False by simp
  qed
  with le show ?thesis by (simp add: afterLast_def)
qed

lemma LastIndexFrom_eq:
  "LastIndexFrom i s sep =
     (if sep \<in> set s then int i + int (length s) - 1 - int (length (afterLast sep s)) else -1)"
proof (induction s arbitrary: i)
  case Nil
  then show ?case by simp
next
  case (Cons c cs)
  show ?case
  proof (cases "sep \<in> set cs")
    case True
    then show ?thesis
      using afterLast_length[OF True] by (simp add: Cons.IH afterLast_Cons_in Let_def)
  next
    case False
    have "takeWhile (\<lambda>x. x \<noteq> sep) (rev cs @ [c]) = rev cs @ takeWhile (\<lambda>x. x \<noteq> sep) [c]"
      by (rule takeWhile_append2) (use False in auto)
    then have al: "afterLast sep (c # cs) = (if c = sep then cs else c # cs)"
      by (simp add: afterLast_def)
    show ?thesis
    proof (cases "c = sep")
      case True
      with al have "afterLast sep (sep # cs) = cs" by simp
      with True False show ?thesis by (simp add: Cons.IH Let_def)
    next
      case neq: False
      with False show ?thesis by (simp add: Cons.IH Let_def)
    qed
  qed
qed

lemma drop_afterLast: "drop (length s - length (afterLast sep s)) s = afterLast sep s"
proof -
  have "rev s = takeWhile (\<lambda>c. c \<noteq> sep) (rev s) @ dropWhile (\<lambda>c. c \<noteq> sep) (rev s)" by simp
  then have "rev (rev s) = rev (takeWhile (\<lambda>c. c \<noteq> sep) (rev s) @ dropWhile (\<lambda>c. c \<noteq> sep) (rev s))"
    by simp
  then have eq: "s = rev (dropWhile (\<lambda>c. c \<noteq> sep) (rev s)) @ afterLast sep s"
    unfolding afterLast_def by (simp only: rev_append rev_rev_ident)
  have "length s = length (rev (dropWhile (\<lambda>c. c \<noteq> sep) (rev s))) + length (afterLast sep s)"
    by (subst eq) (simp only: length_append)
  then have "drop (length s - length (afterLast sep s)) (rev (dropWhile (\<lambda>c. c \<noteq> sep) (rev s)) @ afterLast sep s) = afterLast sep s"
    by simp
  with eq show ?thesis by simp
qed

lemma LastIndex_drop:
  "sep \<in> set s \<Longrightarrow> drop (nat (LastIndex s sep + 1)) s = afterLast sep s"
proof -
  assume a: "sep \<in> set s"
  have "nat (LastIndex s sep + 1) = length s - length (afterLast sep s)"
    using afterLast_length[OF a] by (simp add: LastIndex_def LastIndexFrom_eq a)
  then show ?thesis by (simp add: drop_afterLast)
qed

lemma LastIndex_nonneg: "0 \<le> LastIndex s sep \<longleftrightarrow> sep \<in> set s"
  using afterLast_length[of sep s] by (auto simp: LastIndex_def LastIndexFrom_eq)

lemma baseName_fileSegment: "baseName file = fileSegment file"
  by (simp add: baseName_def fileSegment_def LastIndex_nonneg LastIndex_drop)

subsection \<open>The decorated message\<close>

lemma fmt_d_1: "fmt_d 1 = ''1''"
  by (simp add: fmt_d_def digits.simps digit_def)

lemma decorate_eq:
  "decorate env t s =
     [tab] @ location env t @ '': '' @ label t @ Join (Split (chomp s) nl) [nl, tab] @ [nl]"
  unfolding decorate_def Let_def Split_trailing
  by (simp add: location_def writeLines_Join Split_nonempty baseName_fileSegment fmt_d_1
      split: option.splits prod.splits)

lemma sublist_mid: "sublist w (a @ w @ b)"
  unfolding sublist_def by blast

lemma sublist_chomp:
  assumes "sublist w s" and "w \<noteq> []" and "last w \<noteq> nl"
  shows "sublist w (chomp s)"
proof -
  from assms(1) obtain a b where s: "s = a @ w @ b" by (auto simp: sublist_def)
  show ?thesis
  proof (cases "b = []")
    case True
    with s assms(2,3) have "chomp s = s" by (simp add: chomp_def)
    with assms(1) show ?thesis by simp
  next
    case False
    then have "butlast s = a @ w @ butlast b" using s assms(2) by (simp add: butlast_append)
    then have "sublist w (butlast s)" by (auto simp: sublist_def)
    with assms(1) show ?thesis by (simp add: chomp_def)
  qed
qed

lemma sublist_decorate:
  assumes "sublist w msg" and "w \<noteq> []" and "nl \<notin> set w"
  shows "sublist w (decorate env t msg)"
proof -
  have "last w \<in> set w" using assms(2) by simp
  with assms(3) have "last w \<noteq> nl" by auto
  from sublist_chomp[OF assms(1,2) this] obtain a b where c: "chomp msg = a @ w @ b"
    by (auto simp: sublist_def)
  let ?f = "\<lambda>c. if c = nl then [nl, tab] else [c]"
  have "Join (Split (chomp msg) nl) [nl, tab] =
          concat (map ?f a) @ w @ concat (map ?f b)"
    by (simp add: Join_Split_expand c expand_no_nl[OF assms(3)])
  then have "decorate env t msg =
      ([tab] @ location env t @ '': '' @ label t @ concat (map ?f a)) @ w @ (concat (map ?f b) @ [nl])"
    by (simp add: decorate_eq)
  then show ?thesis unfolding sublist_def by blast
qed

text \<open>\<open>fmt_d\<close> writes the decimal numeral of its argument.\<close>

lemma digit_cases:
  assumes "d < 10"
  shows "digitValue (digit d) = d \<and> digit d \<in> set ''0123456789''"
proof -
  from assms have "d = 0 \<or> d = 1 \<or> d = 2 \<or> d = 3 \<or> d = 4 \<or> d = 5 \<or> d = 6 \<or> d = 7 \<or> d = 8 \<or> d = 9"
    by arith
  then show ?thesis by (auto simp: digit_def digitValue_def)
qed

lemma decimalValue_snoc: "decimalValue (ds @ [c]) = 10 * decimalValue ds + digitValue c"
  by (simp add: decimalValue_def)

lemma decimalValue_digits: "decimalValue (digits n) = n"
proof (induction n rule: digits.induct)
  case (1 n)
  show ?case
  proof (cases "n < 10")
    case True
    then show ?thesis by (simp add: digits.simps[of n] decimalValue_def digit_cases)
  next
    case False
    have "n mod 10 < 10" by simp
    with False "1.IH" show ?thesis
      by (simp add: digits.simps[of n] decimalValue_snoc digit_cases)
  qed
qed

lemma digits_chars: "digits n \<noteq> [] \<and> set (digits n) \<subseteq> set ''0123456789''"
proof (induction n rule: digits.induct)
  case (1 n)
  show ?case
  proof (cases "n < 10")
    case True
    then show ?thesis using digit_cases[of n] by (simp add: digits.simps[of n])
  next
    case False
    have "n mod 10 < 10" by simp
    with False "1.IH" digit_cases[of "n mod 10"] show ?thesis
      by (simp add: digits.simps[of n])
  qed
qed

lemma decimalInt_fmt_d: "decimalInt (fmt_d i) = i"
proof (cases "i < 0")
  case True
  then show ?thesis by (simp add: fmt_d_def decimalInt_def decimalValue_digits)
next
  case False
  obtain c ds where d: "digits (nat i) = c # ds"
    using digits_chars[of "nat i"] by (cases "digits (nat i)") auto
  then have "c \<in> set ''0123456789''" using digits_chars[of "nat i"] by auto
  then have "c \<noteq> CHR ''-''" by auto
  with False d decimalValue_digits[of "nat i"] show ?thesis
    by (simp add: fmt_d_def decimalInt_def)
qed

lemma decorate_expand:
  "decorate env t s =
     [tab] @ location env t @ '': '' @ label t @
     concat (map (\<lambda>c. if c = nl then [nl, tab] else [c]) (chomp s)) @ [nl]"
  by (simp add: decorate_eq Join_Split_expand)

subsection \<open>Trimming\<close>

text \<open>The fuel of \<open>TrimLeftN\<close> and \<open>TrimRightN\<close> is enough: what they return has no white
  space left at the trimmed end. What is cut off are bytes of white-space runes, and a word
  that starts and ends with other bytes is never cut.\<close>

lemma TrimLeft_id: "spaceWidth s = 0 \<Longrightarrow> TrimLeft s = s"
  by (cases "length s") (simp_all add: TrimLeft_def)

lemma TrimLeftN_drop: "\<exists>k. TrimLeftN n s = drop k s"
proof (induction n arbitrary: s)
  case 0
  have "TrimLeftN 0 s = drop 0 s" by simp
  then show ?case by blast
next
  case (Suc n)
  show ?case
  proof (cases "spaceWidth s = 0")
    case True
    then have "TrimLeftN (Suc n) s = drop 0 s" by simp
    then show ?thesis by blast
  next
    case False
    from Suc.IH[of "drop (spaceWidth s) s"] obtain k
      where "TrimLeftN n (drop (spaceWidth s) s) = drop k (drop (spaceWidth s) s)" by blast
    with False have "TrimLeftN (Suc n) s = drop (k + spaceWidth s) s" by simp
    then show ?thesis by blast
  qed
qed

lemma TrimLeftN_done: "length s \<le> n \<Longrightarrow> spaceWidth (TrimLeftN n s) = 0"
proof (induction n arbitrary: s)
  case 0
  then show ?case by (simp add: spaceWidth_def)
next
  case (Suc n)
  show ?case
  proof (cases "spaceWidth s = 0")
    case True
    then show ?thesis by simp
  next
    case False
    with Suc.prems have "length (drop (spaceWidth s) s) \<le> n" by simp
    from Suc.IH[OF this] False show ?thesis by simp
  qed
qed

lemma TrimRightN_take: "\<exists>k. TrimRightN n s = take k s"
proof (induction n arbitrary: s)
  case 0
  have "TrimRightN 0 s = take (length s) s" by simp
  then show ?case by blast
next
  case (Suc n)
  show ?case
  proof (cases "spaceWidthEnd s = 0")
    case True
    then have "TrimRightN (Suc n) s = take (length s) s" by simp
    then show ?thesis by blast
  next
    case False
    let ?s' = "take (length s - spaceWidthEnd s) s"
    from Suc.IH[of ?s'] obtain k where "TrimRightN n ?s' = take k ?s'" by blast
    with False have "TrimRightN (Suc n) s = take (min k (length s - spaceWidthEnd s)) s"
      by (simp add: min.commute)
    then show ?thesis by blast
  qed
qed

lemma TrimRightN_done: "length s \<le> n \<Longrightarrow> spaceWidthEnd (TrimRightN n s) = 0"
proof (induction n arbitrary: s)
  case 0
  then show ?case by (simp add: spaceWidthEnd_def)
next
  case (Suc n)
  show ?case
  proof (cases "spaceWidthEnd s = 0")
    case True
    then show ?thesis by simp
  next
    case False
    with Suc.prems have "length (take (length s - spaceWidthEnd s) s) \<le> n" by simp
    from Suc.IH[OF this] False show ?thesis by simp
  qed
qed

lemma spaceWidth_take: "spaceWidth s = 0 \<Longrightarrow> spaceWidth (take k s) = 0"
proof (cases "take k s")
  case Nil
  show ?thesis unfolding spaceWidth_def Nil by simp
next
  case (Cons c cs)
  assume z: "spaceWidth s = 0"
  from Cons obtain ss where s: "s = c # ss" by (cases s) (auto split: if_splits simp: take_Cons')
  have pre: "prefix (take k s) s" by (rule take_is_prefix)
  from z s have na: "\<not> asciiSpace c" by (auto simp: spaceWidth_def split: if_splits)
  have wide: "\<forall>r \<in> set wideSpaces. r \<noteq> []" by (simp add: wideSpaces_def)
  have "find (\<lambda>r. prefix r s) wideSpaces = None"
  proof (cases "find (\<lambda>r. prefix r s) wideSpaces")
    case None
    then show ?thesis .
  next
    case (Some r)
    then have "r \<in> set wideSpaces" by (auto simp: find_Some_iff)
    with wide have "r \<noteq> []" by blast
    moreover from z s na Some have "length r = 0" by (simp add: spaceWidth_def)
    ultimately show ?thesis by simp
  qed
  then have "\<forall>r \<in> set wideSpaces. \<not> prefix r s" by (simp add: find_None_iff)
  then have "\<forall>r \<in> set wideSpaces. \<not> prefix r (take k s)"
    using pre prefix_order.order_trans by blast
  then have "find (\<lambda>r. prefix r (take k s)) wideSpaces = None" by (simp add: find_None_iff)
  with na Cons show ?thesis by (simp add: spaceWidth_def)
qed

lemma TrimSpace_middle: "\<exists>pre post. s = pre @ TrimSpace s @ post"
proof -
  obtain k where k: "TrimLeft s = drop k s" using TrimLeftN_drop TrimLeft_def by metis
  obtain m where m: "TrimRight (TrimLeft s) = take m (TrimLeft s)"
    using TrimRightN_take TrimRight_def by metis
  have "TrimSpace s = take m (TrimLeft s)" by (simp only: TrimSpace_def m)
  then have e: "TrimSpace s = take m (drop k s)" by (simp only: k)
  have "s = take k s @ (take m (drop k s) @ drop m (drop k s))"
    by (simp only: append_take_drop_id)
  then have "s = take k s @ TrimSpace s @ drop m (drop k s)" by (simp only: e)
  then show ?thesis by blast
qed

lemma TrimSpace_no_leading: "spaceWidth (TrimSpace s) = 0"
proof -
  obtain m where m: "TrimRight (TrimLeft s) = take m (TrimLeft s)"
    using TrimRightN_take TrimRight_def by metis
  have "spaceWidth (TrimLeft s) = 0" by (simp add: TrimLeft_def TrimLeftN_done)
  then show ?thesis unfolding TrimSpace_def m by (rule spaceWidth_take)
qed

lemma TrimSpace_no_trailing: "spaceWidthEnd (TrimSpace s) = 0"
  by (simp add: TrimSpace_def TrimRight_def TrimRightN_done)

lemma spaceWidth_bytes:
  assumes "spaceWidth s \<noteq> 0"
  shows "\<forall>c \<in> set (take (spaceWidth s) s). spaceByte c"
proof (cases s)
  case Nil
  with assms show ?thesis by (simp add: spaceWidth_def)
next
  case (Cons c cs)
  show ?thesis
  proof (cases "asciiSpace c")
    case True
    with Cons show ?thesis by (simp add: spaceWidth_def spaceByte_def)
  next
    case False
    with assms Cons obtain r where r: "find (\<lambda>r. prefix r s) wideSpaces = Some r"
      by (auto simp: spaceWidth_def split: option.splits)
    then have rs: "r \<in> set wideSpaces" and pr: "prefix r s" by (auto simp: find_Some_iff)
    from r False Cons have w: "spaceWidth s = length r" by (simp add: spaceWidth_def)
    from pr have "take (length r) s = r" by (auto simp: prefix_def)
    with w rs show ?thesis by (auto simp: spaceByte_def)
  qed
qed

lemma spaceWidthEnd_bytes:
  assumes "spaceWidthEnd s \<noteq> 0"
  shows "\<forall>c \<in> set (drop (length s - spaceWidthEnd s) s). spaceByte c"
proof (cases "s = []")
  case True
  with assms show ?thesis by (simp add: spaceWidthEnd_def)
next
  case ne: False
  show ?thesis
  proof (cases "asciiSpace (last s)")
    case True
    with ne have w: "spaceWidthEnd s = 1" by (simp add: spaceWidthEnd_def)
    from ne have "drop (length s - 1) s = [last s]"
      by (cases s rule: rev_cases) simp_all
    with w True show ?thesis by (simp add: spaceByte_def)
  next
    case False
    with assms ne obtain r where r: "find (\<lambda>r. suffix r s) wideSpaces = Some r"
      by (auto simp: spaceWidthEnd_def split: option.splits)
    then have rs: "r \<in> set wideSpaces" and sr: "suffix r s" by (auto simp: find_Some_iff)
    from r False ne have w: "spaceWidthEnd s = length r" by (simp add: spaceWidthEnd_def)
    from sr have "drop (length s - length r) s = r" by (auto simp: suffix_def)
    with w rs show ?thesis by (auto simp: spaceByte_def)
  qed
qed

lemma drop_split: "j \<le> m \<Longrightarrow> drop j s = drop j (take m s) @ drop m s"
proof -
  assume jm: "j \<le> m"
  have "drop j (take m s @ drop m s) = drop j (take m s) @ drop (j - length (take m s)) (drop m s)"
    by (rule drop_append)
  moreover have "drop (j - length (take m s)) (drop m s) = drop m s"
    using jm by (cases "m \<le> length s") (simp_all add: min_def)
  ultimately show ?thesis by simp
qed

lemma TrimLeftN_spaces: "\<exists>k. TrimLeftN n s = drop k s \<and> (\<forall>c \<in> set (take k s). spaceByte c)"
proof (induction n arbitrary: s)
  case 0
  have "TrimLeftN 0 s = drop 0 s \<and> (\<forall>c \<in> set (take 0 s). spaceByte c)" by simp
  then show ?case by blast
next
  case (Suc n)
  show ?case
  proof (cases "spaceWidth s = 0")
    case True
    then have "TrimLeftN (Suc n) s = drop 0 s \<and> (\<forall>c \<in> set (take 0 s). spaceByte c)" by simp
    then show ?thesis by blast
  next
    case False
    define w where "w = spaceWidth s"
    from Suc.IH[of "drop w s"] obtain k
      where k: "TrimLeftN n (drop w s) = drop k (drop w s)"
        "\<forall>c \<in> set (take k (drop w s)). spaceByte c" by blast
    have "take (w + k) s = take w s @ take k (drop w s)" by (simp add: take_add)
    with k(2) spaceWidth_bytes[OF False]
    have "\<forall>c \<in> set (take (w + k) s). spaceByte c" by (auto simp: w_def)
    moreover from False k(1) have "TrimLeftN (Suc n) s = drop (w + k) s"
      by (simp add: w_def add.commute)
    ultimately show ?thesis by blast
  qed
qed

lemma TrimRightN_spaces: "\<exists>k. TrimRightN n s = take k s \<and> (\<forall>c \<in> set (drop k s). spaceByte c)"
proof (induction n arbitrary: s)
  case 0
  have "TrimRightN 0 s = take (length s) s \<and> (\<forall>c \<in> set (drop (length s) s). spaceByte c)" by simp
  then show ?case by blast
next
  case (Suc n)
  show ?case
  proof (cases "spaceWidthEnd s = 0")
    case True
    then have "TrimRightN (Suc n) s = take (length s) s \<and>
               (\<forall>c \<in> set (drop (length s) s). spaceByte c)" by simp
    then show ?thesis by blast
  next
    case False
    define m where "m = length s - spaceWidthEnd s"
    from Suc.IH[of "take m s"] obtain k
      where k: "TrimRightN n (take m s) = take k (take m s)"
        "\<forall>c \<in> set (drop k (take m s)). spaceByte c" by blast
    have tail: "\<forall>c \<in> set (drop m s). spaceByte c"
      using spaceWidthEnd_bytes[OF False] by (simp add: m_def)
    have "drop (min k m) s = drop (min k m) (take m s) @ drop m s"
      by (rule drop_split) simp
    moreover have "drop (min k m) (take m s) = drop k (take m s)"
      by (cases "k \<le> m") (simp_all add: min_def)
    ultimately have "\<forall>c \<in> set (drop (min k m) s). spaceByte c"
      using k(2) tail by auto
    moreover from False k(1) have "TrimRightN (Suc n) s = take (min k m) s"
      by (simp add: m_def min.commute)
    ultimately show ?thesis by blast
  qed
qed

lemma TrimSpace_spec:
  "\<exists>pre post. s = pre @ TrimSpace s @ post \<and>
     (\<forall>c \<in> set pre. spaceByte c) \<and> (\<forall>c \<in> set post. spaceByte c)"
proof -
  obtain k where k: "TrimLeft s = drop k s" "\<forall>c \<in> set (take k s). spaceByte c"
    using TrimLeftN_spaces[of "length s" s] by (auto simp: TrimLeft_def)
  obtain m where m: "TrimRight (TrimLeft s) = take m (TrimLeft s)"
    "\<forall>c \<in> set (drop m (TrimLeft s)). spaceByte c"
    using TrimRightN_spaces[of "length (TrimLeft s)" "TrimLeft s"] by (auto simp: TrimRight_def)
  have "TrimSpace s = take m (TrimLeft s)" by (simp only: TrimSpace_def m)
  then have e: "TrimSpace s = take m (drop k s)" by (simp only: k)
  have "s = take k s @ (take m (drop k s) @ drop m (drop k s))"
    by (simp only: append_take_drop_id)
  then have "s = take k s @ TrimSpace s @ drop m (drop k s)" by (simp only: e)
  moreover from m(2) have "\<forall>c \<in> set (drop m (drop k s)). spaceByte c" by (simp only: k)
  ultimately show ?thesis using k(2) by blast
qed

lemma append_eq_split:
  assumes "xs @ ys = us @ vs" and "length xs \<le> length us"
  shows "\<exists>m. us = xs @ m \<and> ys = m @ vs"
proof -
  from assms have a: "xs = take (length xs) us" and b: "ys = drop (length xs) us @ vs"
    by (simp_all add: append_eq_append_conv_if)
  have "us = take (length xs) us @ drop (length xs) us" by simp
  with a have "us = xs @ drop (length xs) us" by simp
  with b show ?thesis by blast
qed

lemma sublist_TrimSpace:
  assumes sub: "sublist w s" and ne: "w \<noteq> []"
    and first: "\<not> spaceByte (hd w)" and final: "\<not> spaceByte (last w)"
  shows "sublist w (TrimSpace s)"
proof -
  from sub obtain a b where s: "s = a @ w @ b" by (auto simp: sublist_def)
  from TrimSpace_spec[of s] obtain pre post where
    p: "s = pre @ TrimSpace s @ post" "\<forall>c \<in> set pre. spaceByte c" "\<forall>c \<in> set post. spaceByte c"
    by blast
  have la: "length pre \<le> length a"
  proof (rule ccontr)
    assume "\<not> length pre \<le> length a"
    then have lt: "length a < length pre" by simp
    have "s ! length a = hd w" using ne by (simp add: s nth_append hd_conv_nth)
    moreover have "s ! length a = pre ! length a"
      using lt p(1) by (metis nth_append)
    ultimately have "hd w \<in> set pre" using lt by (metis nth_mem)
    with p(2) first show False by blast
  qed
  have lb: "length post \<le> length b"
  proof (rule ccontr)
    assume "\<not> length post \<le> length b"
    then have lt: "length b < length post" by simp
    have "rev s = rev b @ rev w @ rev a" by (simp add: s)
    then have "rev s ! length b = hd (rev w)"
      using ne by (simp add: nth_append hd_conv_nth)
    then have x: "rev s ! length b = last w" using ne by (simp add: hd_rev)
    have "rev s = rev post @ rev (TrimSpace s) @ rev pre" by (subst p(1)) simp
    then have "rev s ! length b = rev post ! length b" using lt by (simp add: nth_append)
    with x have "last w \<in> set (rev post)" using lt by (metis length_rev nth_mem)
    with p(3) final show False by auto
  qed
  have "pre @ (TrimSpace s @ post) = a @ (w @ b)" using p(1) s by simp
  from append_eq_split[OF this la] obtain a' where a': "a = pre @ a'" "TrimSpace s @ post = a' @ w @ b"
    by blast
  have "rev (TrimSpace s @ post) = rev (a' @ w @ b)" using a'(2) by simp
  then have r: "rev post @ rev (TrimSpace s) = rev b @ (rev w @ rev a')" by simp
  have "length (rev post) \<le> length (rev b)" using lb by simp
  from append_eq_split[OF r this] obtain b' where
    b': "rev b = rev post @ b'" "rev (TrimSpace s) = b' @ (rev w @ rev a')" by blast
  from b'(2) have "rev (rev (TrimSpace s)) = rev (b' @ (rev w @ rev a'))" by simp
  then have "TrimSpace s = a' @ w @ rev b'" by simp
  then show ?thesis unfolding sublist_def by blast
qed

lemma sublist_logged:
  assumes "sublist w msg" and "w \<noteq> []" and "nl \<notin> set w"
    and "\<not> spaceByte (hd w)" and "\<not> spaceByte (last w)"
  shows "sublist w (TrimSpace (decorate env t msg))"
  by (rule sublist_TrimSpace[OF sublist_decorate[OF assms(1,2,3)] assms(2,4,5)])

lemma not_spaceByte_letters:
  "\<not> spaceByte CHR ''C''" "\<not> spaceByte CHR ''y''" "\<not> spaceByte CHR ''B''"
  "\<not> spaceByte CHR ''G''" "\<not> spaceByte CHR ''W''" "\<not> spaceByte CHR '':''"
  by (simp_all add: spaceByte_def asciiSpace_def wideSpaces_def)

section \<open>Lemmas on the heap and the accumulator\<close>

subsection \<open>Reading and writing objects\<close>

lemma deref_store:
  "deref (store p x h) q = (if q = p \<and> deref h p \<noteq> None then Some x else deref h q)"
  by (cases p; cases q) (auto simp: deref_def store_def)

lemma deref_snoc:
  "deref (h @ [x]) q = (if q = Addr (length h) then Some x else deref h q)"
  by (cases q) (auto simp: deref_def nth_append)

lemma deref_fresh: "deref h (Addr (length h)) = None"
  by (simp add: deref_def)

lemmas heap_simps = deref_store deref_snoc deref_fresh getT_def getAcc_def getArr_def getTest_def

lemma loadAcc_ok: "getAcc h a = Some acc \<Longrightarrow> loadAcc a h = (Return acc, h)"
  by (simp add: loadAcc_def)

lemma loadT_ok: "getT h p = Some t \<Longrightarrow> loadT p h = (Return t, h)"
  by (simp add: loadT_def)

lemma loadTest_ok: "getTest h p = Some t \<Longrightarrow> loadTest p h = (Return t, h)"
  by (simp add: loadTest_def)

lemma store_snoc_last: "store (Addr (length h)) y (h @ [x]) = h @ [y]"
  by (simp add: store_def)

lemma getArr_snoc_old: "getArr h b = Some xs \<Longrightarrow> getArr (h @ [x]) b = Some xs"
  by (auto simp: heap_simps split: option.splits object.splits)

lemma getArr_snoc_new: "getArr (h @ [Array ys]) (Addr (length h)) = Some ys"
  by (simp add: heap_simps)

lemma getT_fresh: "getT h q = Some t \<Longrightarrow> q \<noteq> Addr (length h)"
  by (auto simp: heap_simps)

lemma getT_new: "getT (h @ [Handle t]) (Addr (length h)) = Some t"
  by (simp add: heap_simps)

lemma elems_new: "elems (h @ [Array ys]) \<lparr>sbase = Addr (length h), slen = length ys, scap = n\<rparr> = ys"
  by (simp add: elems_def getArr_snoc_new)

lemma take_Suc_update: "n < length xs \<Longrightarrow> take (Suc n) (xs[n := v]) = take n xs @ [v]"
  by (simp add: take_Suc_conv_app_nth)

subsection \<open>Heaps that grow, and heaps that differ in the host test context only\<close>

lemma extends_snoc: "extends h (h @ [x])"
  by (auto simp: extends_def deref_snoc deref_fresh)

lemma extends_refl: "extends h h"
  by (simp add: extends_def)

lemma extends_trans: "extends h h1 \<Longrightarrow> extends h1 h2 \<Longrightarrow> extends h h2"
  by (simp add: extends_def)

lemma extends_accState:
  assumes "validAcc h a" and "extends h h'"
  shows "accState h' a = accState h a" and "validAcc h' a"
proof -
  from assms(1) obtain acc where acc: "getAcc h a = Some acc" "validSlice h (output acc)"
    by (auto simp: validAcc_def split: option.splits)
  from acc(1) assms(2) have g: "getAcc h' a = Some acc"
    by (auto simp: getAcc_def extends_def split: option.splits object.splits)
  have arr: "\<And>xs. getArr h (sbase (output acc)) = Some xs \<Longrightarrow>
                 getArr h' (sbase (output acc)) = Some xs"
    using assms(2) by (auto simp: getArr_def extends_def split: option.splits object.splits)
  show "accState h' a = accState h a"
    using acc(2) arr
    by (cases "getArr h (sbase (output acc))")
       (auto simp: accState_def g acc(1) elems_def validSlice_def split: option.splits)
  show "validAcc h' a"
    using acc(2) arr
    by (cases "getArr h (sbase (output acc))")
       (auto simp: validAcc_def g validSlice_def split: option.splits)
qed

lemma extends_getT: "extends h h' \<Longrightarrow> getT h p = Some t \<Longrightarrow> getT h' p = Some t"
  by (auto simp: getT_def extends_def split: option.splits object.splits)

lemma extends_getTest: "extends h h' \<Longrightarrow> getTest h p = Some t \<Longrightarrow> getTest h' p = Some t"
  by (auto simp: getTest_def extends_def split: option.splits object.splits)


lemma validHandle_D:
  assumes "validHandle h p" and "getT h p = Some t"
  shows "validAcc h (context t)" and "\<exists>c. getTest h (test t) = Some c"
  using assms by (auto simp: validHandle_def split: option.splits)

lemma validHandle_I:
  "getT h p = Some t \<Longrightarrow> validAcc h (context t) \<Longrightarrow> getTest h (test t) \<noteq> None \<Longrightarrow> validHandle h p"
  by (auto simp: validHandle_def split: option.splits)

lemma extends_validHandle:
  assumes "validHandle h p" and "extends h h'"
  shows "validHandle h' p"
proof -
  from assms(1) obtain t where t: "getT h p = Some t"
    by (auto simp: validHandle_def split: option.splits)
  from validHandle_D[OF assms(1) t] obtain c where va: "validAcc h (context t)"
    and c: "getTest h (test t) = Some c" by blast
  show ?thesis
    using extends_getT[OF assms(2) t] extends_accState(2)[OF va assms(2)]
      extends_getTest[OF assms(2) c]
    by (auto intro: validHandle_I)
qed

lemma sameAccs_accState: "sameAccs h h' \<Longrightarrow> accState h' a = accState h a"
  by (simp add: sameAccs_def accState_def elems_def)

lemma sameAccs_validAcc: "sameAccs h h' \<Longrightarrow> validAcc h' a = validAcc h a"
  by (simp add: sameAccs_def validAcc_def validSlice_def split: option.splits)

lemma store_Test_sameAccs:
  assumes "getTest h c = Some x"
  shows "sameAccs h (store c (Test x') h) \<and> getTest (store c (Test x') h) c = Some x'"
  using assms by (auto simp: sameAccs_def heap_simps split: option.splits object.splits)

lemma testing_Fail_step: "finishes testing_Fail (Return ()) c"
  unfolding finishes_def
proof (intro allI impI)
  fix h x
  assume a: "getTest h c = Some x"
  show "\<exists>h'. testing_Fail c h = (Return (), h') \<and> sameAccs h h' \<and> getTest h' c \<noteq> None"
    using store_Test_sameAccs[OF a]
    by (simp add: testing_Fail_def thenDo_def loadTest_ok[OF a])
qed

lemma testing_FailNow_step: "finishes testing_FailNow (Goexit) c"
  unfolding finishes_def
proof (intro allI impI)
  fix h x
  assume a: "getTest h c = Some x"
  show "\<exists>h'. testing_FailNow c h = (Goexit, h') \<and> sameAccs h h' \<and> getTest h' c \<noteq> None"
    using store_Test_sameAccs[OF a]
    by (simp add: testing_FailNow_def thenDo_def loadTest_ok[OF a])
qed

lemma testing_SkipNow_step: "finishes testing_SkipNow (Goexit) c"
  unfolding finishes_def
proof (intro allI impI)
  fix h x
  assume a: "getTest h c = Some x"
  show "\<exists>h'. testing_SkipNow c h = (Goexit, h') \<and> sameAccs h h' \<and> getTest h' c \<noteq> None"
    using store_Test_sameAccs[OF a]
    by (simp add: testing_SkipNow_def thenDo_def loadTest_ok[OF a])
qed

subsection \<open>The methods of the accumulator\<close>

text \<open>On a valid accumulator each method returns; \<open>incFailCount\<close> adds one to the count,
  \<open>log\<close> appends the trimmed string (in place or on a new array), and \<open>outputCopy\<close>
  allocates one array that holds the log.\<close>

lemma incFailCount_step:
  assumes "validAcc h a" and "accState h a = Some (k, out)"
  shows "\<exists>h'. incFailCount a h = (Return (), h') \<and> accState h' a = Some (k + 1, out) \<and>
           validAcc h' a \<and> frame h h'"
proof -
  from assms obtain acc where acc: "getAcc h a = Some acc" "validSlice h (output acc)"
    and k: "k = failCount acc" and out: "out = elems h (output acc)"
    by (auto simp: validAcc_def accState_def split: option.splits)
  define acc' where "acc' = acc\<lparr>failCount := failCount acc + 1\<rparr>"
  define h' where "h' = store a (Acc acc') h"
  have r: "incFailCount a h = (Return (), h')"
    by (simp add: incFailCount_def thenDo_def loadAcc_ok[OF acc(1)] h'_def acc'_def)
  have arr: "\<And>b. getArr h' b = getArr h b"
    using acc(1) by (auto simp: h'_def heap_simps split: option.splits object.splits)
  have g: "getAcc h' a = Some acc'"
    using acc(1) by (auto simp: h'_def heap_simps split: option.splits object.splits)
  have "accState h' a = Some (k + 1, out)"
    by (simp add: accState_def g elems_def arr k out acc'_def split: option.splits)
  moreover have "validAcc h' a"
    using acc(2) by (simp add: validAcc_def g validSlice_def arr acc'_def split: option.splits)
  moreover have "frame h h'"
    using acc(1) by (auto simp: h'_def frame_def heap_simps split: option.splits object.splits)
  ultimately show ?thesis using r by blast
qed

lemma log_step:
  assumes "validAcc h a" and "accState h a = Some (k, out)"
  shows "\<exists>h'. log env a s h = (Return (), h') \<and> accState h' a = Some (k, out @ [TrimSpace s]) \<and>
           validAcc h' a \<and> frame h h'"
proof -
  from assms obtain acc where acc: "getAcc h a = Some acc" "validSlice h (output acc)"
    and k: "k = failCount acc" and out: "out = elems h (output acc)"
    by (auto simp: validAcc_def accState_def split: option.splits)
  define s0 where "s0 = output acc"
  define v where "v = TrimSpace s"
  have vs: "validSlice h s0" using acc(2) by (simp add: s0_def)
  show ?thesis
  proof (cases "slen s0 < scap s0")
    case True
    with vs obtain xs where xs: "getArr h (sbase s0) = Some xs" "scap s0 \<le> length xs"
      by (auto simp: validSlice_def split: option.splits)
    define s1 where "s1 = s0\<lparr>slen := slen s0 + 1\<rparr>"
    define ys where "ys = xs[slen s0 := v]"
    define h1 where "h1 = store (sbase s0) (Array ys) h"
    define acc' where "acc' = acc\<lparr>output := s1\<rparr>"
    define h' where "h' = store a (Acc acc') h1"
    have ap: "append_go env s0 v h = (Return s1, h1)"
      using True xs by (simp add: append_go_def s1_def h1_def ys_def)
    have r: "log env a s h = (Return (), h')"
      using ap by (simp add: log_def thenDo_def loadAcc_ok[OF acc(1)] h'_def acc'_def s0_def v_def)
    have ne: "sbase s0 \<noteq> a"
      using acc(1) xs(1) by (auto simp: heap_simps split: option.splits object.splits)
    have g: "getAcc h' a = Some acc'"
      using acc(1) xs(1) by (auto simp: h'_def h1_def heap_simps split: option.splits object.splits)
    have arr: "getArr h' (sbase s0) = Some ys"
      using acc(1) xs(1) ne by (auto simp: h'_def h1_def heap_simps split: option.splits object.splits)
    have e0: "elems h s0 = take (slen s0) xs" by (simp add: elems_def xs)
    have "elems h' s1 = take (slen s0) xs @ [v]"
      using True xs(2) by (simp add: elems_def s1_def arr ys_def take_Suc_update)
    then have "accState h' a = Some (k, out @ [TrimSpace s])"
      by (simp add: accState_def g acc'_def k out e0 s0_def[symmetric] v_def)
    moreover have "validAcc h' a"
      using vs True xs by (simp add: validAcc_def g acc'_def validSlice_def s1_def arr ys_def)
    moreover have "frame h h'"
      using acc(1) xs(1)
      by (auto simp: h'_def h1_def frame_def heap_simps split: option.splits object.splits)
    ultimately show ?thesis using r by blast
  next
    case False
    with vs have full: "slen s0 = scap s0" by (simp add: validSlice_def)
    have len: "length (elems h s0) = slen s0"
      using vs by (auto simp: validSlice_def elems_def split: option.splits)
    define s1 where "s1 = \<lparr>sbase = Addr (length h), slen = slen s0 + 1,
                 scap = slen s0 + 1 + growslice env (scap s0)\<rparr>"
    define ys where "ys = elems h s0 @ [v] @ replicate (growslice env (scap s0)) []"
    define h1 where "h1 = h @ [Array ys]"
    define acc' where "acc' = acc\<lparr>output := s1\<rparr>"
    define h' where "h' = store a (Acc acc') h1"
    have ap: "append_go env s0 v h = (Return s1, h1)"
      using False by (simp add: append_go_def s1_def h1_def ys_def)
    have r: "log env a s h = (Return (), h')"
      using ap by (simp add: log_def thenDo_def loadAcc_ok[OF acc(1)] h'_def acc'_def s0_def v_def)
    have ne: "a \<noteq> Addr (length h)"
      using acc(1) by (auto simp: heap_simps)
    have g: "getAcc h' a = Some acc'"
      using acc(1) ne by (auto simp: h'_def h1_def heap_simps split: option.splits object.splits)
    have arr: "getArr h' (Addr (length h)) = Some ys"
      using acc(1) ne by (auto simp: h'_def h1_def heap_simps split: option.splits object.splits)
    have "elems h' s1 = elems h s0 @ [v]"
      using len by (simp add: elems_def[of h'] s1_def arr ys_def)
    then have "accState h' a = Some (k, out @ [TrimSpace s])"
      by (simp add: accState_def g acc'_def k out s0_def[symmetric] v_def)
    moreover have "validAcc h' a"
      using len by (simp add: validAcc_def g acc'_def validSlice_def s1_def arr ys_def)
    moreover have "frame h h'"
      using acc(1) ne
      by (auto simp: h'_def h1_def frame_def heap_simps split: option.splits object.splits)
    ultimately show ?thesis using r by blast
  qed
qed

lemma copyLoop_step:
  assumes src: "getArr h (sbase src) = Some xs" and n: "n \<le> length xs" "slen src = n"
    and out: "out = \<lparr>sbase = Addr (length h), slen = n, scap = n\<rparr>"
  shows "i \<le> n \<Longrightarrow> length ys = n \<Longrightarrow>
         copyLoop src out [i..<n] (h @ [Array ys]) =
           (Return (), h @ [Array (take i ys @ drop i (take n xs))])"
proof (induction "n - i" arbitrary: i ys)
  case 0
  then have "i = n" by simp
  with 0 show ?case by (simp add: ret_def)
next
  case (Suc d)
  then have lt: "i < n" by simp
  have upt: "[i..<n] = i # [Suc i..<n]" using lt by (simp add: upt_conv_Cons)
  have idx: "index src i (h @ [Array ys]) = (Return (xs ! i), h @ [Array ys])"
    using lt n by (simp add: index_def getArr_snoc_old[OF src])
  have set: "setIndex out i (xs ! i) (h @ [Array ys]) = (Return (), h @ [Array (ys[i := xs ! i])])"
    using lt Suc.prems by (simp add: setIndex_def out getArr_snoc_new store_snoc_last)
  have d: "d = n - Suc i" using Suc.hyps(2) by simp
  have IH: "copyLoop src out [Suc i..<n] (h @ [Array (ys[i := xs ! i])]) =
      (Return (), h @ [Array (take (Suc i) (ys[i := xs ! i]) @ drop (Suc i) (take n xs))])"
    using Suc.hyps(1)[OF d] lt Suc.prems by simp
  have "take (Suc i) (ys[i := xs ! i]) @ drop (Suc i) (take n xs) = take i ys @ drop i (take n xs)"
  proof -
    have a: "take (Suc i) (ys[i := xs ! i]) = take i ys @ [xs ! i]"
      using lt Suc.prems by (simp add: take_Suc_update)
    have "i < length (take n xs)" using lt n by simp
    then have "drop i (take n xs) = (take n xs ! i) # drop (Suc i) (take n xs)"
      by (rule Cons_nth_drop_Suc[symmetric])
    moreover have "take n xs ! i = xs ! i" using lt by simp
    ultimately show ?thesis using a by simp
  qed
  with IH show ?case by (simp add: upt thenDo_def idx set)
qed

lemma outputCopy_step:
  assumes va: "validAcc h a" and st: "accState h a = Some (k, out)"
  shows "outputCopy a h =
           (Return \<lparr>sbase = Addr (length h), slen = length out, scap = length out\<rparr>,
            h @ [Array out])"
proof -
  from assms obtain acc where acc: "getAcc h a = Some acc" "validSlice h (output acc)"
    and out: "out = elems h (output acc)"
    by (auto simp: validAcc_def accState_def split: option.splits)
  define s0 where "s0 = output acc"
  define n where "n = slen s0"
  define sl where "sl = \<lparr>sbase = Addr (length h), slen = n, scap = n\<rparr>"
  have vs: "validSlice h s0" using acc(2) by (simp add: s0_def)
  have mk: "make n h = (Return sl, h @ [Array (replicate n [])])"
    by (simp add: make_def sl_def)
  have loop: "copyLoop s0 sl [0..<n] (h @ [Array (replicate n [])]) = (Return (), h @ [Array out])
              \<and> length out = n"
  proof (cases "getArr h (sbase s0)")
    case None
    with vs have "n = 0" by (simp add: validSlice_def n_def)
    moreover from None have "out = []" by (simp add: out elems_def s0_def)
    ultimately show ?thesis by (simp add: ret_def)
  next
    case (Some xs)
    with vs have le: "n \<le> length xs" by (simp add: validSlice_def n_def)
    have o: "out = take n xs" using Some by (simp add: out elems_def s0_def n_def)
    have "copyLoop s0 sl [0..<n] (h @ [Array (replicate n [])]) =
            (Return (), h @ [Array (take 0 (replicate n []) @ drop 0 (take n xs))])"
      by (rule copyLoop_step[OF Some le _ sl_def]) (simp_all add: n_def)
    with o le show ?thesis by simp
  qed
  have "outputCopy a h = (Return sl, h @ [Array out])"
    using loop
    by (simp add: outputCopy_def thenDo_def loadAcc_ok[OF acc(1)] mk ret_def
        s0_def[symmetric] n_def[symmetric])
  with loop show ?thesis by (simp add: sl_def)
qed

lemma Output_step:
  assumes v: "validHandle h p" and t: "getT h p = Some t"
    and st: "accState h (context t) = Some (k, out)"
  shows "Output p h =
           (Return \<lparr>sbase = Addr (length h), slen = length out, scap = length out\<rparr>,
            h @ [Array out])"
  using outputCopy_step[OF validHandle_D(1)[OF v t] st]
  by (simp add: Output_def thenDo_def loadT_ok[OF t])

subsection \<open>Handles\<close>

lemma new_Handle_step:
  assumes "getT h p = Some t"
  shows "new (Handle t') h = (Return (Addr (length h)), h @ [Handle t']) \<and>
         Addr (length h) \<noteq> p \<and> deref h (Addr (length h)) = None \<and>
         extends h (h @ [Handle t']) \<and>
         getT (h @ [Handle t']) p = Some t \<and>
         getT (h @ [Handle t']) (Addr (length h)) = Some t' \<and>
         (\<forall>a. getAcc (h @ [Handle t']) a = getAcc h a) \<and>
         (\<forall>b. getArr (h @ [Handle t']) b = getArr h b) \<and>
         (\<forall>c. getTest (h @ [Handle t']) c = getTest h c)"
  using assms getT_fresh[OF assms]
  by (auto simp: new_def heap_simps extends_snoc split: option.splits object.splits)

lemma Label_step:
  assumes "getT h p = Some t"
  shows "Label p s h =
           (Return (Addr (length h)), h @ [Handle (t\<lparr>label := TrimSpace (Sprintln s) @ '': ''\<rparr>)])"
  by (simp add: Label_def thenDo_def loadT_ok[OF assms] new_def)

lemma NewCase_valid:
  assumes "getTest h c = Some x"
  shows "\<exists>q h'. NewCase c name h = (Return q, h') \<and> validHandle h' q \<and> extends h h' \<and>
           getT h' q = Some \<lparr>test = c, context = Addr (length h), caseName = name, label = [],
                              callDepth = 1\<rparr> \<and>
           accState h' (Addr (length h)) = Some (0, [])"
proof -
  define acc where "acc = \<lparr>failCount = (0 :: 64 word), output = \<lparr>sbase = NilPtr, slen = 0, scap = 0\<rparr>\<rparr>"
  define t where "t = \<lparr>test = c, context = Addr (length h), caseName = name, label = [],
                              callDepth = (1 :: 64 word)\<rparr>"
  define h' where "h' = h @ [Acc acc] @ [Handle t]"
  have r: "NewCase c name h = (Return (Addr (Suc (length h))), h')"
    by (simp add: NewCase_def thenDo_def new_def h'_def acc_def t_def)
  have e: "extends h h'"
    using extends_snoc[of h "Acc acc"] extends_snoc[of "h @ [Acc acc]" "Handle t"]
    by (auto simp: h'_def intro: extends_trans)
  have gt: "getT h' (Addr (Suc (length h))) = Some t"
    by (simp add: h'_def getT_def deref_def nth_append)
  have ga: "getAcc h' (Addr (length h)) = Some acc"
    by (simp add: h'_def getAcc_def deref_def nth_append)
  have gn: "getArr h' NilPtr = None" by (simp add: getArr_def deref_def)
  have va: "validAcc h' (Addr (length h))"
    by (simp add: validAcc_def ga validSlice_def acc_def gn)
  have st: "accState h' (Addr (length h)) = Some (0, [])"
    by (simp add: accState_def ga elems_def acc_def gn)
  have "validHandle h' (Addr (Suc (length h)))"
    using extends_getTest[OF e assms] va
    by (auto intro!: validHandle_I[OF gt] simp: t_def)
  with r e gt st show ?thesis by (auto simp: t_def)
qed

subsection \<open>Counting, logging and finishing\<close>

text \<open>The three ways a facade function ends once the handle is loaded: count, log and
  finish; count and finish; log and finish.\<close>

lemma count_log_finish:
  assumes v: "validHandle h p" and t: "getT h p = Some t"
    and st: "accState h (context t) = Some (k, out)"
    and fin: "finishes finish r (test t)"
  shows "\<exists>h'. thenDo (loadT p) (\<lambda>t.
               thenDo (incFailCount (context t)) (\<lambda>_.
               thenDo (log env (context t) m) (\<lambda>_. finish (test t)))) h = (r, h') \<and>
            accState h' (context t) = Some (k + 1, out @ [TrimSpace m]) \<and> validHandle h' p"
proof -
  from validHandle_D[OF v t] obtain c where va: "validAcc h (context t)"
    and c: "getTest h (test t) = Some c" by blast
  from incFailCount_step[OF va st] obtain h1 where h1:
    "incFailCount (context t) h = (Return (), h1)" "accState h1 (context t) = Some (k + 1, out)"
    "validAcc h1 (context t)" "frame h h1" by blast
  from log_step[OF h1(3) h1(2), of env m] obtain h2 where h2:
    "log env (context t) m h1 = (Return (), h2)"
    "accState h2 (context t) = Some (k + 1, out @ [TrimSpace m])"
    "validAcc h2 (context t)" "frame h1 h2" by blast
  from h1(4) h2(4) c t have c2: "getTest h2 (test t) = Some c" and t2: "getT h2 p = Some t"
    by (simp_all add: frame_def)
  from fin c2 obtain h3 where h3: "finish (test t) h2 = (r, h3)" "sameAccs h2 h3"
    "getTest h3 (test t) \<noteq> None" unfolding finishes_def by blast
  have "thenDo (loadT p) (\<lambda>t.
               thenDo (incFailCount (context t)) (\<lambda>_.
               thenDo (log env (context t) m) (\<lambda>_. finish (test t)))) h = (r, h3)"
    by (simp add: thenDo_def loadT_ok[OF t] h1(1) h2(1) h3(1))
  moreover have "accState h3 (context t) = Some (k + 1, out @ [TrimSpace m])"
    using h2(2) sameAccs_accState[OF h3(2)] by simp
  moreover have "validHandle h3 p"
  proof (rule validHandle_I)
    show "getT h3 p = Some t" using t2 h3(2) by (simp add: sameAccs_def)
    show "validAcc h3 (context t)" using h2(3) sameAccs_validAcc[OF h3(2)] by simp
    show "getTest h3 (test t) \<noteq> None" by (rule h3(3))
  qed
  ultimately show ?thesis by blast
qed

lemma count_finish:
  assumes v: "validHandle h p" and t: "getT h p = Some t"
    and st: "accState h (context t) = Some (k, out)"
    and fin: "finishes finish r (test t)"
  shows "\<exists>h'. thenDo (loadT p) (\<lambda>t.
               thenDo (incFailCount (context t)) (\<lambda>_. finish (test t))) h = (r, h') \<and>
            accState h' (context t) = Some (k + 1, out) \<and> validHandle h' p"
proof -
  from validHandle_D[OF v t] obtain c where va: "validAcc h (context t)"
    and c: "getTest h (test t) = Some c" by blast
  from incFailCount_step[OF va st] obtain h1 where h1:
    "incFailCount (context t) h = (Return (), h1)" "accState h1 (context t) = Some (k + 1, out)"
    "validAcc h1 (context t)" "frame h h1" by blast
  from h1(4) c t have c2: "getTest h1 (test t) = Some c" and t2: "getT h1 p = Some t"
    by (simp_all add: frame_def)
  from fin c2 obtain h3 where h3: "finish (test t) h1 = (r, h3)" "sameAccs h1 h3"
    "getTest h3 (test t) \<noteq> None" unfolding finishes_def by blast
  have "thenDo (loadT p) (\<lambda>t.
               thenDo (incFailCount (context t)) (\<lambda>_. finish (test t))) h = (r, h3)"
    by (simp add: thenDo_def loadT_ok[OF t] h1(1) h3(1))
  moreover have "accState h3 (context t) = Some (k + 1, out)"
    using h1(2) sameAccs_accState[OF h3(2)] by simp
  moreover have "validHandle h3 p"
  proof (rule validHandle_I)
    show "getT h3 p = Some t" using t2 h3(2) by (simp add: sameAccs_def)
    show "validAcc h3 (context t)" using h1(3) sameAccs_validAcc[OF h3(2)] by simp
    show "getTest h3 (test t) \<noteq> None" by (rule h3(3))
  qed
  ultimately show ?thesis by blast
qed

lemma log_finish:
  assumes v: "validHandle h p" and t: "getT h p = Some t"
    and st: "accState h (context t) = Some (k, out)"
    and fin: "finishes finish r (test t)"
  shows "\<exists>h'. thenDo (loadT p) (\<lambda>t.
               thenDo (log env (context t) m) (\<lambda>_. finish (test t))) h = (r, h') \<and>
            accState h' (context t) = Some (k, out @ [TrimSpace m]) \<and> validHandle h' p"
proof -
  from validHandle_D[OF v t] obtain c where va: "validAcc h (context t)"
    and c: "getTest h (test t) = Some c" by blast
  from log_step[OF va st, of env m] obtain h2 where h2:
    "log env (context t) m h = (Return (), h2)"
    "accState h2 (context t) = Some (k, out @ [TrimSpace m])"
    "validAcc h2 (context t)" "frame h h2" by blast
  from h2(4) c t have c2: "getTest h2 (test t) = Some c" and t2: "getT h2 p = Some t"
    by (simp_all add: frame_def)
  from fin c2 obtain h3 where h3: "finish (test t) h2 = (r, h3)" "sameAccs h2 h3"
    "getTest h3 (test t) \<noteq> None" unfolding finishes_def by blast
  have "thenDo (loadT p) (\<lambda>t.
               thenDo (log env (context t) m) (\<lambda>_. finish (test t))) h = (r, h3)"
    by (simp add: thenDo_def loadT_ok[OF t] h2(1) h3(1))
  moreover have "accState h3 (context t) = Some (k, out @ [TrimSpace m])"
    using h2(2) sameAccs_accState[OF h3(2)] by simp
  moreover have "validHandle h3 p"
  proof (rule validHandle_I)
    show "getT h3 p = Some t" using t2 h3(2) by (simp add: sameAccs_def)
    show "validAcc h3 (context t)" using h2(3) sameAccs_validAcc[OF h3(2)] by simp
    show "getTest h3 (test t) \<noteq> None" by (rule h3(3))
  qed
  ultimately show ?thesis by blast
qed

lemma logged_failure:
  assumes v: "validHandle h p" and t: "getT h p = Some t"
    and st: "accState h (context t) = Some (k, out)"
  shows "\<exists>h'. thenDo (loadT p) (\<lambda>t.
               thenDo (incFailCount (context t)) (\<lambda>_.
               thenDo (log env (context t) (decorate env t msg)) (\<lambda>_. testing_Fail (test t)))) h
               = (Return (), h') \<and>
            accState h' (context t) = Some (k + 1, out @ [TrimSpace (decorate env t msg)]) \<and>
            validHandle h' p"
  using count_log_finish[OF v t st testing_Fail_step, where env = env and m = "decorate env t msg"]
  by (auto simp: thenDo_def loadT_ok[OF t])

subsection \<open>Rendering operands\<close>

lemma diag_ok:
  "\<not> diagPanics v \<Longrightarrow> diag env pre v h = (Return (pre @ '': '' @ rendering env v @ [nl]), h)"
  by (cases v) (auto simp: diag_def diagPanics_def rendering_def ret_def)

lemma diag_panics: "diagPanics v \<Longrightarrow> diag env pre v h = (Panic, h)"
  by (cases v) (auto simp: diag_def diagPanics_def panic_def)

lemma thenDo_diag:
  "\<not> diagPanics v \<Longrightarrow> thenDo (diag env pre v) f = f (pre @ '': '' @ rendering env v @ [nl])"
  by (rule ext) (simp add: thenDo_def diag_ok)

lemma nil_not_diagPanics: "\<not> diagPanics NilIface"
  by (simp add: diagPanics_def)

lemma nil_branch:
  assumes nil: "got = NilIface \<or> want = NilIface"
    and r1: "\<not> diagPanics got" and r2: "\<not> diagPanics want"
  shows "Unequal env p got want =
      thenDo (loadT p) (\<lambda>t.
        thenDo (incFailCount (context t)) (\<lambda>_.
        thenDo (log env (context t) (decorate env t
                (''Can't safely compare nil values for equality:'' @ [nl] @
                 ''   Got: '' @ rendering env got @ [nl] @
                 ''Got: '' @ rendering env want @ [nl]))) (\<lambda>_. testing_Fail (test t))))"
    and "Equal env p got want =
      thenDo (loadT p) (\<lambda>t.
        thenDo (incFailCount (context t)) (\<lambda>_.
        thenDo (log env (context t) (decorate env t
                (''Can't safely compare nil values for equality:'' @ [nl] @
                 ''   Got: '' @ rendering env got @ [nl] @
                 ''Wanted: '' @ rendering env want @ [nl]))) (\<lambda>_. testing_Fail (test t))))"
  using nil by (simp_all add: Unequal_def Equal_def thenDo_diag[OF r1] thenDo_diag[OF r2])

subsection \<open>The concrete setting\<close>

lemma heap1_eq:
  "heap1 = [Test \<lparr>failed = False, skipped = False, finished = False\<rparr>,
            Acc \<lparr>failCount = 0, output = \<lparr>sbase = NilPtr, slen = 0, scap = 0\<rparr>\<rparr>,
            Handle root]"
  by (simp add: heap1_def heap0_def NewCase_def thenDo_def new_def root_def)

lemma heap1_root: "getT heap1 (Addr 2) = Some root"
  by (simp add: heap1_eq getT_def deref_def)

lemma heap1_valid: "validHandle heap1 (Addr 2)"
  by code_simp

lemma heap1_state: "accState heap1 (context root) = Some (0, [])"
  by code_simp

lemma heap2_valid: "validHandle heap2 (Addr 2)"
  by code_simp

lemma heap2_root: "getT heap2 (Addr 2) = Some root"
  by code_simp

lemma heap2_state: "accState heap2 (context root) =
   Some (2, [''example_test.go:17: was not positive'', ''example_test.go:17: was not even''])"
  by code_simp

section \<open>The equality helpers\<close>

text \<open>Where \<open>diag\<close> renders both operands, \<open>Equal\<close> and \<open>Unequal\<close> record what the
  specification says: with a nil operand one failure whose message names the unsafe
  comparison, and otherwise a failure exactly when the comparison goes against the helper,
  with \<open>Got:\<close> and \<open>Wanted:\<close>, or \<open>Both:\<close>, in its message.\<close>

lemma nil_operand_recorded:
  assumes v: "validHandle h p" and t: "getT h p = Some t"
    and st: "accState h (context t) = Some (k, out)"
    and nil: "got = NilIface \<or> want = NilIface"
    and r1: "\<not> diagPanics got" and r2: "\<not> diagPanics want"
  shows "(\<exists>h' m. Equal env p got want h = (Return (), h') \<and>
            accState h' (context t) = Some (k + 1, out @ [m]) \<and>
            sublist ''Can't safely compare nil values for equality'' m) \<and>
         (\<exists>h' m. Unequal env p got want h = (Return (), h') \<and>
            accState h' (context t) = Some (k + 1, out @ [m]) \<and>
            sublist ''Can't safely compare nil values for equality'' m)"
proof (intro conjI)
  let ?w = "''Can't safely compare nil values for equality''"
  have s: "\<And>rest. sublist ?w (TrimSpace (decorate env t (?w @ rest)))"
  proof -
    fix rest
    have "sublist ?w ([] @ ?w @ rest)" by (rule sublist_mid)
    then have "sublist ?w (?w @ rest)" by simp
    then show "sublist ?w (TrimSpace (decorate env t (?w @ rest)))"
      by (rule sublist_logged) (simp_all add: nl_def not_spaceByte_letters)
  qed
  define m1 where "m1 = '':'' @ [nl] @ ''   Got: '' @ rendering env got @ [nl] @
                 ''Wanted: '' @ rendering env want @ [nl]"
  define m2 where "m2 = '':'' @ [nl] @ ''   Got: '' @ rendering env got @ [nl] @
                 ''Got: '' @ rendering env want @ [nl]"
  have e: "Equal env p got want =
      thenDo (loadT p) (\<lambda>t.
        thenDo (incFailCount (context t)) (\<lambda>_.
        thenDo (log env (context t) (decorate env t (?w @ m1))) (\<lambda>_. testing_Fail (test t))))"
    using nil_branch(2)[OF nil r1 r2, of env p] by (simp add: m1_def)
  have u: "Unequal env p got want =
      thenDo (loadT p) (\<lambda>t.
        thenDo (incFailCount (context t)) (\<lambda>_.
        thenDo (log env (context t) (decorate env t (?w @ m2))) (\<lambda>_. testing_Fail (test t))))"
    using nil_branch(1)[OF nil r1 r2, of env p] by (simp add: m2_def)
  from logged_failure[OF v t st, of env "?w @ m1"] s[of m1]
  show "\<exists>h' m. Equal env p got want h = (Return (), h') \<and>
            accState h' (context t) = Some (k + 1, out @ [m]) \<and> sublist ?w m"
    unfolding e by blast
  from logged_failure[OF v t st, of env "?w @ m2"] s[of m2]
  show "\<exists>h' m. Unequal env p got want h = (Return (), h') \<and>
            accState h' (context t) = Some (k + 1, out @ [m]) \<and> sublist ?w m"
    unfolding u by blast
qed

lemma compared_operands:
  assumes v: "validHandle h p" and t: "getT h p = Some t"
    and st: "accState h (context t) = Some (k, out)"
    and n1: "got \<noteq> NilIface" and n2: "want \<noteq> NilIface"
    and r1: "\<not> diagPanics got" and r2: "\<not> diagPanics want"
  shows "(DeepEqual env got want \<longrightarrow>
            Equal env p got want h = (Return (), h) \<and>
            (\<exists>h' m. Unequal env p got want h = (Return (), h') \<and>
               accState h' (context t) = Some (k + 1, out @ [m]) \<and> sublist ''Both:'' m)) \<and>
         (\<not> DeepEqual env got want \<longrightarrow>
            Unequal env p got want h = (Return (), h) \<and>
            (\<exists>h' m. Equal env p got want h = (Return (), h') \<and>
               accState h' (context t) = Some (k + 1, out @ [m]) \<and>
               sublist ''Got:'' m \<and> sublist ''Wanted:'' m))"
proof (intro conjI impI)
  assume eq: "DeepEqual env got want"
  show "Equal env p got want h = (Return (), h)"
    using eq n1 n2 by (simp add: Equal_def ret_def)
  define msg where "msg = ''Values were not unequal:'' @ [nl] @ ''  Both: '' @ rendering env got @ [nl]"
  have u: "Unequal env p got want =
      thenDo (loadT p) (\<lambda>t.
        thenDo (incFailCount (context t)) (\<lambda>_.
        thenDo (log env (context t) (decorate env t msg)) (\<lambda>_. testing_Fail (test t))))"
    using eq n1 n2 by (simp add: Unequal_def thenDo_diag[OF r1] msg_def)
  have "msg = (''Values were not unequal:'' @ [nl] @ ''  '') @ ''Both:'' @ ('' '' @ rendering env got @ [nl])"
    by (simp add: msg_def)
  then have "sublist ''Both:'' msg" by (simp only: sublist_mid)
  then have "sublist ''Both:'' (TrimSpace (decorate env t msg))"
    by (rule sublist_logged) (simp_all add: nl_def not_spaceByte_letters)
  with logged_failure[OF v t st, of env msg]
  show "\<exists>h' m. Unequal env p got want h = (Return (), h') \<and>
               accState h' (context t) = Some (k + 1, out @ [m]) \<and> sublist ''Both:'' m"
    unfolding u by blast
next
  assume ne: "\<not> DeepEqual env got want"
  show "Unequal env p got want h = (Return (), h)"
    using ne n1 n2 by (simp add: Unequal_def ret_def)
  define msg where "msg = ''Values were not equal:'' @ [nl] @ ''   Got: '' @ rendering env got @ [nl] @
      ''Wanted: '' @ rendering env want @ [nl]"
  have e: "Equal env p got want =
      thenDo (loadT p) (\<lambda>t.
        thenDo (incFailCount (context t)) (\<lambda>_.
        thenDo (log env (context t) (decorate env t msg)) (\<lambda>_. testing_Fail (test t))))"
    using ne n1 n2 by (simp add: Equal_def thenDo_diag[OF r1] thenDo_diag[OF r2] msg_def)
  have "msg = (''Values were not equal:'' @ [nl] @ ''   '') @ ''Got:'' @
      ('' '' @ rendering env got @ [nl] @ ''Wanted: '' @ rendering env want @ [nl])"
    by (simp add: msg_def)
  then have "sublist ''Got:'' msg" by (simp only: sublist_mid)
  then have g: "sublist ''Got:'' (TrimSpace (decorate env t msg))"
    by (rule sublist_logged) (simp_all add: nl_def not_spaceByte_letters)
  have "msg = (''Values were not equal:'' @ [nl] @ ''   Got: '' @ rendering env got @ [nl]) @
      ''Wanted:'' @ ('' '' @ rendering env want @ [nl])"
    by (simp add: msg_def)
  then have "sublist ''Wanted:'' msg" by (simp only: sublist_mid)
  then have w: "sublist ''Wanted:'' (TrimSpace (decorate env t msg))"
    by (rule sublist_logged) (simp_all add: nl_def not_spaceByte_letters)
  from logged_failure[OF v t st, of env msg] g w
  show "\<exists>h' m. Equal env p got want h = (Return (), h') \<and>
               accState h' (context t) = Some (k + 1, out @ [m]) \<and>
               sublist ''Got:'' m \<and> sublist ''Wanted:'' m"
    unfolding e by blast
qed

text \<open>Where \<open>diag\<close> cannot render the operand that is not nil, \<open>Equal\<close> counts the
  failure and panics, on every valid handle; the log stays as it was.\<close>

lemma diag_panic_step:
  assumes v: "validHandle h p" and t: "getT h p = Some t"
    and st: "accState h (context t) = Some (k, out)"
    and pan: "diagPanics want"
  shows "\<exists>h'. Equal env p NilIface want h = (Panic, h') \<and>
           accState h' (context t) = Some (k + 1, out)"
proof -
  from validHandle_D[OF v t] have va: "validAcc h (context t)" by blast
  from incFailCount_step[OF va st] obtain h1 where h1:
    "incFailCount (context t) h = (Return (), h1)" "accState h1 (context t) = Some (k + 1, out)"
    by blast
  have "Equal env p NilIface want h = (Panic, h1)"
    by (simp add: Equal_def thenDo_def loadT_ok[OF t] h1(1) diag_ok[OF nil_not_diagPanics]
        diag_panics[OF pan])
  with h1(2) show ?thesis by blast
qed

text \<open>
  Claim C1 fails on the code where the operand that is not nil has a defined type of kind
  \<open>String\<close>, such as \<open>type Colour string\<close>: \<open>Equal(nil, Colour("red"))\<close> and
  \<open>Unequal(Colour("red"), nil)\<close> count the failure and then panic in \<open>diag\<close>, at the type
  assertion \<open>value.(string)\<close>, before any message is logged.
\<close>

theorem Equal_nil_defined_string_panics:
  "fst (Equal env0 (Addr 2) NilIface (OtherVal Colour ''red'') heap1) = Panic \<and>
   accState (snd (Equal env0 (Addr 2) NilIface (OtherVal Colour ''red'') heap1)) (Addr 1) = Some (1, []) \<and>
   fst (Unequal env0 (Addr 2) (OtherVal Colour ''red'') NilIface heap1) = Panic \<and>
   accState (snd (Unequal env0 (Addr 2) (OtherVal Colour ''red'') NilIface heap1)) (Addr 1) = Some (1, [])"
  by code_simp

text \<open>
  Claim C2 fails on the code for the same operands: \<open>Equal(Colour("red"), Colour("blue"))\<close>
  and \<open>Unequal(Colour("red"), Colour("red"))\<close> count the failure and then panic in \<open>diag\<close>
  before any message is logged.
\<close>

theorem Equal_defined_string_panics:
  "\<not> DeepEqual env0 (OtherVal Colour ''red'') (OtherVal Colour ''blue'') \<and>
   fst (Equal env0 (Addr 2) (OtherVal Colour ''red'') (OtherVal Colour ''blue'') heap1) = Panic \<and>
   accState (snd (Equal env0 (Addr 2) (OtherVal Colour ''red'') (OtherVal Colour ''blue'') heap1)) (Addr 1)
     = Some (1, []) \<and>
   DeepEqual env0 (OtherVal Colour ''red'') (OtherVal Colour ''red'') \<and>
   fst (Unequal env0 (Addr 2) (OtherVal Colour ''red'') (OtherVal Colour ''red'') heap1) = Panic \<and>
   accState (snd (Unequal env0 (Addr 2) (OtherVal Colour ''red'') (OtherVal Colour ''red'') heap1)) (Addr 1)
     = Some (1, [])"
  by code_simp

text \<open>
  Claim C9. When an operand is nil and \<open>diag\<close> renders both operands, \<open>Unequal\<close> records
  one failure whose message is the decoration of the line
  \<open>Can't safely compare nil values for equality:\<close> followed by the first operand after
  \<open>"   Got: "\<close> and the second after \<open>"Got: "\<close>; the message of \<open>Equal\<close> is the same except
  that the second operand stands after \<open>"Wanted: "\<close>.
\<close>

theorem nil_operand_prefixes:
  assumes v: "validHandle h p" and t: "getT h p = Some t"
    and st: "accState h (context t) = Some (k, out)"
    and nil: "got = NilIface \<or> want = NilIface"
    and r1: "\<not> diagPanics got" and r2: "\<not> diagPanics want"
  shows "(\<exists>h'. Unequal env p got want h = (Return (), h') \<and>
            accState h' (context t) =
              Some (k + 1, out @ [TrimSpace (decorate env t
                (''Can't safely compare nil values for equality:'' @ [nl] @
                 ''   Got: '' @ rendering env got @ [nl] @
                 ''Got: '' @ rendering env want @ [nl]))])) \<and>
         (\<exists>h'. Equal env p got want h = (Return (), h') \<and>
            accState h' (context t) =
              Some (k + 1, out @ [TrimSpace (decorate env t
                (''Can't safely compare nil values for equality:'' @ [nl] @
                 ''   Got: '' @ rendering env got @ [nl] @
                 ''Wanted: '' @ rendering env want @ [nl]))]))"
proof (intro conjI)
  note logged = logged_failure[OF v t st, of env]
  show "\<exists>h'. Unequal env p got want h = (Return (), h') \<and>
            accState h' (context t) =
              Some (k + 1, out @ [TrimSpace (decorate env t
                (''Can't safely compare nil values for equality:'' @ [nl] @
                 ''   Got: '' @ rendering env got @ [nl] @
                 ''Got: '' @ rendering env want @ [nl]))])"
    unfolding nil_branch(1)[OF nil r1 r2] using logged by blast
  show "\<exists>h'. Equal env p got want h = (Return (), h') \<and>
            accState h' (context t) =
              Some (k + 1, out @ [TrimSpace (decorate env t
                (''Can't safely compare nil values for equality:'' @ [nl] @
                 ''   Got: '' @ rendering env got @ [nl] @
                 ''Wanted: '' @ rendering env want @ [nl]))])"
    unfolding nil_branch(2)[OF nil r1 r2] using logged by blast
qed

text \<open>Claim C9 at the root handle of \<open>heap1\<close>, for the operands \<open>nil\<close> and \<open>42\<close>.\<close>

theorem nil_operand_prefixes_witness:
  "validHandle heap1 (Addr 2) \<and> getT heap1 (Addr 2) = Some root \<and>
   accState heap1 (context root) = Some (0, []) \<and>
   \<not> diagPanics NilIface \<and> \<not> diagPanics (OtherVal intType ''42'') \<and>
   (\<exists>h'. Unequal env0 (Addr 2) NilIface (OtherVal intType ''42'') heap1 = (Return (), h') \<and>
      accState h' (context root) =
        Some (1, [''example_test.go:17: Can't safely compare nil values for equality:'' @ [nl, tab] @
                  ''   Got: nil'' @ [nl, tab] @ ''Got: 42 (int)''])) \<and>
   (\<exists>h'. Equal env0 (Addr 2) NilIface (OtherVal intType ''42'') heap1 = (Return (), h') \<and>
      accState h' (context root) =
        Some (1, [''example_test.go:17: Can't safely compare nil values for equality:'' @ [nl, tab] @
                  ''   Got: nil'' @ [nl, tab] @ ''Wanted: 42 (int)'']))"
proof -
  have r2: "\<not> diagPanics (OtherVal intType ''42'')" by code_simp
  have a: "TrimSpace (decorate env0 root
                (''Can't safely compare nil values for equality:'' @ [nl] @
                 ''   Got: '' @ rendering env0 NilIface @ [nl] @
                 ''Got: '' @ rendering env0 (OtherVal intType ''42'') @ [nl])) =
           ''example_test.go:17: Can't safely compare nil values for equality:'' @ [nl, tab] @
                  ''   Got: nil'' @ [nl, tab] @ ''Got: 42 (int)''" by code_simp
  have b: "TrimSpace (decorate env0 root
                (''Can't safely compare nil values for equality:'' @ [nl] @
                 ''   Got: '' @ rendering env0 NilIface @ [nl] @
                 ''Wanted: '' @ rendering env0 (OtherVal intType ''42'') @ [nl])) =
           ''example_test.go:17: Can't safely compare nil values for equality:'' @ [nl, tab] @
                  ''   Got: nil'' @ [nl, tab] @ ''Wanted: 42 (int)''" by code_simp
  from nil_operand_prefixes[OF heap1_valid heap1_root heap1_state _ nil_not_diagPanics r2,
      of env0]
  show ?thesis
    unfolding a b using heap1_valid heap1_root heap1_state nil_not_diagPanics r2 by auto
qed

section \<open>The report of Done\<close>



section \<open>Decoration\<close>

text \<open>
  Claim C4, as amended. For every handle value, environment and raw message, \<open>decorate\<close>
  returns one tab, the location \<open>file:line\<close>, a colon and a space, the label, and the
  message in which one newline at the end is dropped and every other newline is followed by
  one tab; a newline ends the result. The location is \<open>???:1\<close> when \<open>runtime.Caller\<close> does
  not resolve the frame. Otherwise its file is the part of the path after the last \<open>/\<close>, and
  only when the path has no \<open>/\<close> the part after the last backslash; its line is the decimal
  numeral of the line: the characters \<open>fmt_d\<close> writes are digits and a minus sign, and they
  denote the number.
\<close>

theorem decorate_format:
  "decorate env t s =
     [tab] @ location env t @ '': '' @ label t @
     concat (map (\<lambda>c. if c = nl then [nl, tab] else [c]) (chomp s)) @ [nl] \<and>
   decimalInt (fmt_d n) = n \<and> set (fmt_d n) \<subseteq> set ''-0123456789''"
proof -
  have sub: "set ''0123456789'' \<subseteq> set ''-0123456789''" by (rule set_subset_Cons)
  have "set (fmt_d n) \<subseteq> set ''-0123456789''"
  proof (cases "n < 0")
    case True
    have "set (digits (nat (- n))) \<subseteq> set ''-0123456789''"
      using digits_chars[of "nat (- n)"] sub by (blast intro: subset_trans)
    with True show ?thesis by (simp add: fmt_d_def)
  next
    case False
    have "set (digits (nat n)) \<subseteq> set ''-0123456789''"
      using digits_chars[of "nat n"] sub by (blast intro: subset_trans)
    with False show ?thesis by (simp add: fmt_d_def)
  qed
  with decorate_expand[of env t s] decimalInt_fmt_d[of n] show ?thesis by blast
qed

text \<open>Claim C4 at a message of two lines with a label, at a call depth that
  \<open>runtime.Caller\<close> does not resolve, and at the path \<open>a/b\c.go\<close>.\<close>

theorem decorate_format_witness:
  "decorate env0 (root\<lparr>label := ''Testing 3: ''\<rparr>) (''one'' @ [nl] @ ''two'' @ [nl]) =
     [tab] @ ''example_test.go:17: Testing 3: one'' @ [nl, tab] @ ''two'' @ [nl] \<and>
   decorate env0 (root\<lparr>callDepth := 7\<rparr>) ''lost'' = [tab] @ ''???:1: lost'' @ [nl] \<and>
   decorate env1 root ''boom'' = [tab] @ ''b'' @ [CHR 0x5C] @ ''c.go:1204: boom'' @ [nl]"
proof -
  have l1: "location env0 (root\<lparr>label := ''Testing 3: ''\<rparr>) = ''example_test.go:17''" by code_simp
  have l2: "location env0 (root\<lparr>callDepth := 7\<rparr>) = ''???:1''" by code_simp
  have l3: "location env1 root = ''b'' @ [CHR 0x5C] @ ''c.go:1204''" by code_simp
  have b1: "concat (map (\<lambda>c. if c = nl then [nl, tab] else [c]) (chomp (''one'' @ [nl] @ ''two'' @ [nl])))
      = ''one'' @ [nl, tab] @ ''two''" by code_simp
  have b2: "concat (map (\<lambda>c. if c = nl then [nl, tab] else [c]) (chomp ''lost'')) = ''lost''" by code_simp
  have b3: "concat (map (\<lambda>c. if c = nl then [nl, tab] else [c]) (chomp ''boom'')) = ''boom''" by code_simp
  have r1: "label (root\<lparr>label := ''Testing 3: ''\<rparr>) = ''Testing 3: ''" by simp
  have r2: "label (root\<lparr>callDepth := 7\<rparr>) = []" by (simp add: root_def)
  have r3: "label root = []" by (simp add: root_def)
  have w1: "decorate env0 (root\<lparr>label := ''Testing 3: ''\<rparr>) (''one'' @ [nl] @ ''two'' @ [nl]) =
     [tab] @ ''example_test.go:17: Testing 3: one'' @ [nl, tab] @ ''two'' @ [nl]"
    using decorate_format[of env0 "root\<lparr>label := ''Testing 3: ''\<rparr>" "''one'' @ [nl] @ ''two'' @ [nl]" 0,
        THEN conjunct1]
    unfolding l1 b1 r1 by simp
  have w2: "decorate env0 (root\<lparr>callDepth := 7\<rparr>) ''lost'' = [tab] @ ''???:1: lost'' @ [nl]"
    using decorate_format[of env0 "root\<lparr>callDepth := 7\<rparr>" "''lost''" 0, THEN conjunct1]
    unfolding l2 b2 r2 by simp
  have w3: "decorate env1 root ''boom'' = [tab] @ ''b'' @ [CHR 0x5C] @ ''c.go:1204: boom'' @ [nl]"
    using decorate_format[of env1 root "''boom''" 0, THEN conjunct1]
    unfolding l3 b3 r3 by simp
  from w1 w2 w3 show ?thesis by (intro conjI)
qed

text \<open>
  Claim C4 as stated fails: it truncates the path to its final segment after the last \<open>/\<close>
  or backslash, which for \<open>a/b\c.go\<close> is \<open>c.go\<close>; the code looks for a backslash only when
  the path has no \<open>/\<close>, and shows \<open>b\c.go\<close>.
\<close>

theorem decorate_mixed_separators:
  "baseName (''a/b'' @ [CHR 0x5C] @ ''c.go'') = ''b'' @ [CHR 0x5C] @ ''c.go'' \<and>
   finalSegment (''a/b'' @ [CHR 0x5C] @ ''c.go'') = ''c.go'' \<and>
   decorate env1 root ''boom'' = [tab] @ ''b'' @ [CHR 0x5C] @ ''c.go:1204: boom'' @ [nl] \<and>
   decorate env1 root ''boom'' \<noteq>
     [tab] @ finalSegment (''a/b'' @ [CHR 0x5C] @ ''c.go'') @ '':1204: boom'' @ [nl]"
  by code_simp

section \<open>Label and Uplevel\<close>

text \<open>
  \<open>Label(parts...)\<close> returns a new handle and leaves the receiver as it was. The new handle
  equals the receiver but for its label, which is \<open>fmt.Sprintln(parts...)\<close> with the white
  space at both ends removed, followed by a colon and a space; a second \<open>Label\<close> on the
  result makes the label from the second arguments alone. Where the printed text does not
  start with white space, trimming both ends is trimming the end.
\<close>

lemma Label_label:
  assumes "getT h p = Some t"
  shows "\<exists>q h'. Label p s h = (Return q, h') \<and> q \<noteq> p \<and> getT h' p = Some t \<and>
           getT h' q = Some (t\<lparr>label := TrimSpace (Sprintln s) @ '': ''\<rparr>) \<and>
           (\<exists>q2 h2. Label q s2 h' = (Return q2, h2) \<and>
              getT h2 q2 = Some (t\<lparr>label := TrimSpace (Sprintln s2) @ '': ''\<rparr>)) \<and>
           (spaceWidth (Sprintln s) = 0 \<longrightarrow> TrimSpace (Sprintln s) = TrimRight (Sprintln s))"
proof -
  define t1 where "t1 = t\<lparr>label := TrimSpace (Sprintln s) @ '': ''\<rparr>"
  define h1 where "h1 = h @ [Handle t1]"
  have g1: "getT h1 (Addr (length h)) = Some t1" by (simp add: h1_def getT_new)
  have l1: "Label p s h = (Return (Addr (length h)), h1)"
    by (simp add: Label_step[OF assms] h1_def t1_def)
  have ne: "Addr (length h) \<noteq> p" using getT_fresh[OF assms] by simp
  have old: "getT h1 p = Some t"
    using extends_getT[OF extends_snoc assms] by (simp add: h1_def)
  have l2: "Label (Addr (length h)) s2 h1 =
      (Return (Addr (length h1)), h1 @ [Handle (t1\<lparr>label := TrimSpace (Sprintln s2) @ '': ''\<rparr>)])"
    by (rule Label_step[OF g1])
  have t2: "t1\<lparr>label := TrimSpace (Sprintln s2) @ '': ''\<rparr> = t\<lparr>label := TrimSpace (Sprintln s2) @ '': ''\<rparr>"
    by (simp add: t1_def)
  have "\<exists>q2 h2. Label (Addr (length h)) s2 h1 = (Return q2, h2) \<and>
          getT h2 q2 = Some (t\<lparr>label := TrimSpace (Sprintln s2) @ '': ''\<rparr>)"
    using l2 getT_new[of h1] by (simp add: t2)
  with l1 g1 ne old show ?thesis
    by (auto simp: t1_def TrimSpace_def TrimLeft_id)
qed

text \<open>
  Claim C5 fails on the code where the printed arguments start with white space. The claim,
  like the doc comment of \<open>Label\<close> ("like fmt.Sprintln without the trailing space"), trims
  the end only and makes the label of \<open>Label(" x")\<close> the string \<open>" x: "\<close>; the code calls
  \<open>strings.TrimSpace\<close>, which also trims the front, and makes it \<open>"x: "\<close>.
\<close>

theorem Label_trims_leading_space:
  "labelOf (Label (Addr 2) [StringVal '' x''] heap1) = Some ''x: '' \<and>
   TrimRight (Sprintln [StringVal '' x'']) @ '': '' = '' x: '' \<and>
   labelOf (Label (Addr 2) [StringVal '' x''] heap1) \<noteq>
     Some (TrimRight (Sprintln [StringVal '' x'']) @ '': '')"
proof -
  have a: "TrimSpace (Sprintln [StringVal '' x'']) = ''x''" by code_simp
  have b: "TrimRight (Sprintln [StringVal '' x'']) = '' x''" by code_simp
  have "labelOf (Label (Addr 2) [StringVal '' x''] heap1) = Some ''x: ''"
    by (simp add: Label_step[OF heap1_root] labelOf_def getT_new a)
  with b show ?thesis by simp
qed

lemma sint_add_no_overflow:
  fixes a b :: "64 word"
  assumes "- (2 ^ 63) \<le> sint a + sint b" and "sint a + sint b < 2 ^ 63"
  shows "sint (a + b) = sint a + sint b"
  using assms by (simp add: sint_word_ariths signed_take_bit_int_eq_self)

text \<open>
  Claim C6. \<open>Label\<close> and \<open>Uplevel\<close> on a handle \<open>p\<close> return the address \<open>q\<close> of a new
  handle: \<open>q\<close> differs from \<open>p\<close> and held no object before, the heap grows by exactly this
  one object, every object of the old heap is unchanged (\<open>p\<close> still holds the same label,
  call depth, case name and pointers), no accumulator and no array is added or changed, and
  the new handle is the old one with the new label, or with the call depth plus \<open>n\<close>, so
  that it points to the same accumulator. The sum is Go's: it wraps at 64 bits, and is the
  sum of the integers when that fits.
\<close>

theorem derived_handle_is_copy:
  assumes "getT h p = Some t"
  shows "(\<exists>q h'. Label p s h = (Return q, h') \<and> q \<noteq> p \<and> deref h q = None \<and>
            length h' = Suc (length h) \<and> extends h h' \<and> getT h' p = Some t \<and>
            getT h' q = Some (t\<lparr>label := TrimSpace (Sprintln s) @ '': ''\<rparr>) \<and>
            (\<forall>a. getAcc h' a = getAcc h a) \<and> (\<forall>b. getArr h' b = getArr h b)) \<and>
         (\<exists>q h'. Uplevel p n h = (Return q, h') \<and> q \<noteq> p \<and> deref h q = None \<and>
            length h' = Suc (length h) \<and> extends h h' \<and> getT h' p = Some t \<and>
            getT h' q = Some (t\<lparr>callDepth := callDepth t + n\<rparr>) \<and>
            (\<forall>a. getAcc h' a = getAcc h a) \<and> (\<forall>b. getArr h' b = getArr h b)) \<and>
         (- (2 ^ 63) \<le> sint (callDepth t) + sint n \<and> sint (callDepth t) + sint n < 2 ^ 63 \<longrightarrow>
            sint (callDepth t + n) = sint (callDepth t) + sint n)"
proof (intro conjI impI)
  let ?t1 = "t\<lparr>label := TrimSpace (Sprintln s) @ '': ''\<rparr>"
  have "Label p s h = new (Handle ?t1) h"
    by (simp add: Label_def thenDo_def loadT_ok[OF assms])
  with new_Handle_step[OF assms, of ?t1]
  show "\<exists>q h'. Label p s h = (Return q, h') \<and> q \<noteq> p \<and> deref h q = None \<and>
            length h' = Suc (length h) \<and> extends h h' \<and> getT h' p = Some t \<and>
            getT h' q = Some ?t1 \<and>
            (\<forall>a. getAcc h' a = getAcc h a) \<and> (\<forall>b. getArr h' b = getArr h b)"
    by simp
next
  let ?t1 = "t\<lparr>callDepth := callDepth t + n\<rparr>"
  have "Uplevel p n h = new (Handle ?t1) h"
    by (simp add: Uplevel_def thenDo_def loadT_ok[OF assms])
  with new_Handle_step[OF assms, of ?t1]
  show "\<exists>q h'. Uplevel p n h = (Return q, h') \<and> q \<noteq> p \<and> deref h q = None \<and>
            length h' = Suc (length h) \<and> extends h h' \<and> getT h' p = Some t \<and>
            getT h' q = Some ?t1 \<and>
            (\<forall>a. getAcc h' a = getAcc h a) \<and> (\<forall>b. getArr h' b = getArr h b)"
    by simp
next
  assume "- (2 ^ 63) \<le> sint (callDepth t) + sint n \<and> sint (callDepth t) + sint n < 2 ^ 63"
  then show "sint (callDepth t + n) = sint (callDepth t) + sint n"
    by (simp add: sint_add_no_overflow)
qed

text \<open>Claim C6 at the root handle of \<open>heap1\<close>, for \<open>Label("Checking", 3)\<close> and
  \<open>Uplevel(1)\<close>.\<close>

theorem derived_handle_is_copy_witness:
  "getT heap1 (Addr 2) = Some root \<and>
   (\<exists>q h'. Label (Addr 2) [StringVal ''Checking'', OtherVal intType ''3''] heap1 = (Return q, h') \<and>
      q \<noteq> Addr 2 \<and> deref heap1 q = None \<and> length h' = Suc (length heap1) \<and>
      getT h' (Addr 2) = Some root \<and>
      getT h' q = Some (root\<lparr>label :=
        TrimSpace (Sprintln [StringVal ''Checking'', OtherVal intType ''3'']) @ '': ''\<rparr>) \<and>
      (\<forall>a. getAcc h' a = getAcc heap1 a) \<and> (\<forall>b. getArr h' b = getArr heap1 b)) \<and>
   (\<exists>q h'. Uplevel (Addr 2) 1 heap1 = (Return q, h') \<and>
      q \<noteq> Addr 2 \<and> deref heap1 q = None \<and> length h' = Suc (length heap1) \<and>
      getT h' (Addr 2) = Some root \<and>
      getT h' q = Some (root\<lparr>callDepth := callDepth root + 1\<rparr>) \<and>
      (\<forall>a. getAcc h' a = getAcc heap1 a) \<and> (\<forall>b. getArr h' b = getArr heap1 b)) \<and>
   sint (callDepth root + 1) = sint (callDepth root) + sint (1 :: 64 word)"
proof -
  have hyp: "- (2 ^ 63) \<le> sint (callDepth root) + sint (1 :: 64 word) \<and>
             sint (callDepth root) + sint (1 :: 64 word) < 2 ^ 63"
    by (simp add: root_def)
  from derived_handle_is_copy[OF heap1_root,
      of "[StringVal ''Checking'', OtherVal intType ''3'']" 1] hyp heap1_root
  show ?thesis by blast
qed

text \<open>
  Claim C10. \<open>Label()\<close> with no arguments gives the new handle the label \<open>": "\<close>, and every
  message that handle decorates has \<open>": "\<close> after the \<open>file:line: \<close> of its location.
\<close>

theorem Label_without_arguments:
  assumes "getT h p = Some t"
  shows "\<exists>q h'. Label p [] h = (Return q, h') \<and> getT h' q = Some (t\<lparr>label := '': ''\<rparr>) \<and>
           (\<forall>env msg. decorate env (t\<lparr>label := '': ''\<rparr>) msg =
              [tab] @ location env t @ '': '' @ '': '' @ Join (Split (chomp msg) nl) [nl, tab] @ [nl])"
proof -
  have e: "TrimSpace (Sprintln []) = []" by code_simp
  have "Label p [] h = (Return (Addr (length h)), h @ [Handle (t\<lparr>label := '': ''\<rparr>)])"
    using Label_step[OF assms, of "[]"] by (simp add: e)
  moreover have "\<And>env. location env (t\<lparr>label := '': ''\<rparr>) = location env t"
    by (simp add: location_def)
  ultimately show ?thesis by (simp add: getT_new decorate_eq)
qed

text \<open>Claim C10 at the root handle of \<open>heap1\<close>, decorating the message \<open>boom\<close>.\<close>

theorem Label_without_arguments_witness:
  "getT heap1 (Addr 2) = Some root \<and>
   (\<exists>q h'. Label (Addr 2) [] heap1 = (Return q, h') \<and> getT h' q = Some (root\<lparr>label := '': ''\<rparr>) \<and>
      decorate env0 (root\<lparr>label := '': ''\<rparr>) ''boom'' =
        [tab] @ ''example_test.go:17: : boom'' @ [nl])"
proof -
  have loc: "location env0 root = ''example_test.go:17''" by code_simp
  have body: "Join (Split (chomp ''boom'') nl) [nl, tab] = ''boom''" by code_simp
  from Label_without_arguments[OF heap1_root] heap1_root
  show ?thesis by (auto simp: loc body)
qed

section \<open>Skipping and failing\<close>

text \<open>
  Claim C7. On a valid handle whose accumulator holds the fail count \<open>k\<close> and the log
  \<open>out\<close>: \<open>Skip\<close> and \<open>Skipf\<close> append the decorated message (as the accumulator stores it,
  trimmed) and leave the count at \<open>k\<close>; \<open>Fail\<close> and \<open>FailNow\<close> make the count \<open>k + 1\<close> and
  leave the log as it is; \<open>Error\<close>, \<open>Errorf\<close>, \<open>Fatal\<close> and \<open>Fatalf\<close> make the count
  \<open>k + 1\<close> and append exactly the decorated message. \<open>Fail\<close>, \<open>Error\<close> and \<open>Errorf\<close>
  return; the others end the goroutine. The handle stays valid.
\<close>

theorem failure_accounting:
  assumes v: "validHandle h p" and t: "getT h p = Some t"
    and st: "accState h (context t) = Some (k, out)"
  shows
    "(\<exists>h'. Skip env p args h = (Goexit, h') \<and> validHandle h' p \<and>
        accState h' (context t) = Some (k, out @ [TrimSpace (decorate env t (Sprintln args))])) \<and>
     (\<exists>h'. Skipf env p msg h = (Goexit, h') \<and> validHandle h' p \<and>
        accState h' (context t) = Some (k, out @ [TrimSpace (decorate env t msg)])) \<and>
     (\<exists>h'. Fail p h = (Return (), h') \<and> validHandle h' p \<and>
        accState h' (context t) = Some (k + 1, out)) \<and>
     (\<exists>h'. FailNow p h = (Goexit, h') \<and> validHandle h' p \<and>
        accState h' (context t) = Some (k + 1, out)) \<and>
     (\<exists>h'. Error env p args h = (Return (), h') \<and> validHandle h' p \<and>
        accState h' (context t) = Some (k + 1, out @ [TrimSpace (decorate env t (Sprintln args))])) \<and>
     (\<exists>h'. Errorf env p msg h = (Return (), h') \<and> validHandle h' p \<and>
        accState h' (context t) = Some (k + 1, out @ [TrimSpace (decorate env t msg)])) \<and>
     (\<exists>h'. Fatal env p args h = (Goexit, h') \<and> validHandle h' p \<and>
        accState h' (context t) = Some (k + 1, out @ [TrimSpace (decorate env t (Sprintln args))])) \<and>
     (\<exists>h'. Fatalf env p msg h = (Goexit, h') \<and> validHandle h' p \<and>
        accState h' (context t) = Some (k + 1, out @ [TrimSpace (decorate env t msg)]))"
proof (intro conjI)
  note lf = log_finish[OF v t st] and cf = count_finish[OF v t st]
    and clf = count_log_finish[OF v t st]
  show "\<exists>h'. Skip env p args h = (Goexit, h') \<and> validHandle h' p \<and>
        accState h' (context t) = Some (k, out @ [TrimSpace (decorate env t (Sprintln args))])"
    using lf[where finish = testing_SkipNow and r = Goexit and env = env and m = "decorate env t (Sprintln args)", OF testing_SkipNow_step]
    by (auto simp: Skip_def thenDo_def loadT_ok[OF t])
  show "\<exists>h'. Skipf env p msg h = (Goexit, h') \<and> validHandle h' p \<and>
        accState h' (context t) = Some (k, out @ [TrimSpace (decorate env t msg)])"
    using lf[where finish = testing_SkipNow and r = Goexit and env = env and m = "decorate env t msg", OF testing_SkipNow_step]
    by (auto simp: Skipf_def thenDo_def loadT_ok[OF t])
  show "\<exists>h'. Fail p h = (Return (), h') \<and> validHandle h' p \<and>
        accState h' (context t) = Some (k + 1, out)"
    using cf[where finish = testing_Fail and r = "Return ()", OF testing_Fail_step]
    by (auto simp: Fail_def thenDo_def loadT_ok[OF t])
  show "\<exists>h'. FailNow p h = (Goexit, h') \<and> validHandle h' p \<and>
        accState h' (context t) = Some (k + 1, out)"
    using cf[where finish = testing_FailNow and r = Goexit, OF testing_FailNow_step]
    by (auto simp: FailNow_def thenDo_def loadT_ok[OF t])
  show "\<exists>h'. Error env p args h = (Return (), h') \<and> validHandle h' p \<and>
        accState h' (context t) = Some (k + 1, out @ [TrimSpace (decorate env t (Sprintln args))])"
    using clf[where finish = testing_Fail and r = "Return ()" and env = env and m = "decorate env t (Sprintln args)", OF testing_Fail_step]
    by (auto simp: Error_def thenDo_def loadT_ok[OF t])
  show "\<exists>h'. Errorf env p msg h = (Return (), h') \<and> validHandle h' p \<and>
        accState h' (context t) = Some (k + 1, out @ [TrimSpace (decorate env t msg)])"
    using clf[where finish = testing_Fail and r = "Return ()" and env = env and m = "decorate env t msg", OF testing_Fail_step]
    by (auto simp: Errorf_def thenDo_def loadT_ok[OF t])
  show "\<exists>h'. Fatal env p args h = (Goexit, h') \<and> validHandle h' p \<and>
        accState h' (context t) = Some (k + 1, out @ [TrimSpace (decorate env t (Sprintln args))])"
    using clf[where finish = testing_FailNow and r = Goexit and env = env and m = "decorate env t (Sprintln args)", OF testing_FailNow_step]
    by (auto simp: Fatal_def thenDo_def loadT_ok[OF t])
  show "\<exists>h'. Fatalf env p msg h = (Goexit, h') \<and> validHandle h' p \<and>
        accState h' (context t) = Some (k + 1, out @ [TrimSpace (decorate env t msg)])"
    using clf[where finish = testing_FailNow and r = Goexit and env = env and m = "decorate env t msg", OF testing_FailNow_step]
    by (auto simp: Fatalf_def thenDo_def loadT_ok[OF t])
qed

text \<open>Claim C7 at the root handle of \<open>heap1\<close>.\<close>

theorem failure_accounting_witness:
  "validHandle heap1 (Addr 2) \<and> getT heap1 (Addr 2) = Some root \<and>
   accState heap1 (context root) = Some (0, []) \<and>
   (\<exists>h'. Skip env0 (Addr 2) [StringVal ''not today''] heap1 = (Goexit, h') \<and>
      accState h' (context root) = Some (0, [''example_test.go:17: not today''])) \<and>
   (\<exists>h'. Fail (Addr 2) heap1 = (Return (), h') \<and> accState h' (context root) = Some (1, [])) \<and>
   (\<exists>h'. FailNow (Addr 2) heap1 = (Goexit, h') \<and> accState h' (context root) = Some (1, [])) \<and>
   (\<exists>h'. Error env0 (Addr 2) [StringVal ''one'', StringVal ''two''] heap1 = (Return (), h') \<and>
      accState h' (context root) = Some (1, [''example_test.go:17: one two''])) \<and>
   (\<exists>h'. Fatalf env0 (Addr 2) ''three 4'' heap1 = (Goexit, h') \<and>
      accState h' (context root) = Some (1, [''example_test.go:17: three 4'']))"
proof -
  have a: "TrimSpace (decorate env0 root (Sprintln [StringVal ''not today''])) =
             ''example_test.go:17: not today''" by code_simp
  have b: "TrimSpace (decorate env0 root (Sprintln [StringVal ''one'', StringVal ''two''])) =
             ''example_test.go:17: one two''" by code_simp
  have c: "TrimSpace (decorate env0 root ''three 4'') = ''example_test.go:17: three 4''"
    by code_simp
  from failure_accounting[OF heap1_valid heap1_root heap1_state,
      of env0 "[StringVal ''not today'']" "''three 4''"]
    failure_accounting[OF heap1_valid heap1_root heap1_state,
      of env0 "[StringVal ''one'', StringVal ''two'']" "''three 4''"]
  show ?thesis
    unfolding a b c using heap1_valid heap1_root heap1_state by auto
qed

section \<open>The snapshot of Output\<close>

text \<open>
  Claim C8. On a valid handle whose accumulator holds the log \<open>out\<close>, two calls of
  \<open>Output\<close> in a row return two slices with the elements \<open>out\<close>, on different arrays.
  Writing any element of the first slice changes that slice and nothing else: the second
  slice and the accumulator's log are as before, and a later \<open>Output\<close> returns \<open>out\<close>
  again.
\<close>

theorem Output_is_copy:
  assumes v: "validHandle h p" and t: "getT h p = Some t"
    and st: "accState h (context t) = Some (k, out)"
  shows "\<exists>s1 h1 s2 h2.
           Output p h = (Return s1, h1) \<and> Output p h1 = (Return s2, h2) \<and>
           elems h1 s1 = out \<and> elems h2 s2 = out \<and> elems h2 s1 = out \<and>
           sbase s1 \<noteq> sbase s2 \<and> accState h2 (context t) = Some (k, out) \<and>
           (\<forall>i x. i < length out \<longrightarrow>
              (\<exists>h3. setIndex s1 i x h2 = (Return (), h3) \<and>
                 elems h3 s1 = out[i := x] \<and> elems h3 s2 = out \<and>
                 accState h3 (context t) = Some (k, out) \<and>
                 (\<exists>s4 h4. Output p h3 = (Return s4, h4) \<and> elems h4 s4 = out)))"
proof -
  define n where "n = length out"
  define s1 where "s1 = \<lparr>sbase = Addr (length h), slen = n, scap = n\<rparr>"
  define h1 where "h1 = h @ [Array out]"
  define s2 where "s2 = \<lparr>sbase = Addr (length h1), slen = n, scap = n\<rparr>"
  define h2 where "h2 = h1 @ [Array out]"
  have va: "validAcc h (context t)" using validHandle_D(1)[OF v t] .
  have e1: "extends h h1" by (simp add: h1_def extends_snoc)
  have e2: "extends h1 h2" by (simp add: h2_def extends_snoc)
  have e12: "extends h h2" using e1 e2 by (rule extends_trans)
  have o1: "Output p h = (Return s1, h1)"
    using Output_step[OF v t st] by (simp add: s1_def h1_def n_def)
  have v1: "validHandle h1 p" using extends_validHandle[OF v e1] .
  have t1: "getT h1 p = Some t" using extends_getT[OF e1 t] .
  have st1: "accState h1 (context t) = Some (k, out)"
    using extends_accState(1)[OF va e1] st by simp
  have o2: "Output p h1 = (Return s2, h2)"
    using Output_step[OF v1 t1 st1] by (simp add: s2_def h2_def n_def)
  have a1: "getArr h2 (Addr (length h)) = Some out"
    by (simp add: h2_def h1_def getArr_def deref_def nth_append)
  have el1: "elems h1 s1 = out" by (simp add: s1_def h1_def n_def elems_new)
  have el2: "elems h2 s2 = out" by (simp add: s2_def h2_def n_def elems_new)
  have el3: "elems h2 s1 = out" by (simp add: elems_def s1_def a1 n_def)
  have ne: "sbase s1 \<noteq> sbase s2" by (simp add: s1_def s2_def h1_def)
  have st2: "accState h2 (context t) = Some (k, out)"
    using extends_accState(1)[OF va e12] st by simp
  have mut: "\<exists>h3. setIndex s1 i x h2 = (Return (), h3) \<and>
                 elems h3 s1 = out[i := x] \<and> elems h3 s2 = out \<and>
                 accState h3 (context t) = Some (k, out) \<and>
                 (\<exists>s4 h4. Output p h3 = (Return s4, h4) \<and> elems h4 s4 = out)"
    if i: "i < length out" for i x
  proof -
    define h3 where "h3 = h @ [Array (out[i := x])] @ [Array out]"
    have w0: "setIndex s1 i x h2 = (Return (), store (Addr (length h)) (Array (out[i := x])) h2)"
      using i by (simp add: setIndex_def s1_def a1 n_def)
    have "store (Addr (length h)) (Array (out[i := x])) h2 = h3"
      by (simp add: store_def h2_def h1_def h3_def list_update_append)
    with w0 have w: "setIndex s1 i x h2 = (Return (), h3)" by simp
    have e3: "extends h h3"
      using extends_snoc[of h "Array (out[i := x])"]
        extends_snoc[of "h @ [Array (out[i := x])]" "Array out"]
      by (auto simp: h3_def intro: extends_trans)
    have b1: "getArr h3 (Addr (length h)) = Some (out[i := x])"
      by (simp add: h3_def getArr_def deref_def nth_append)
    have b2: "getArr h3 (Addr (length h1)) = Some out"
      by (simp add: h3_def h1_def getArr_def deref_def nth_append)
    have st3: "accState h3 (context t) = Some (k, out)"
      using extends_accState(1)[OF va e3] st by simp
    have o3: "Output p h3 =
        (Return \<lparr>sbase = Addr (length h3), slen = length out, scap = length out\<rparr>, h3 @ [Array out])"
      by (rule Output_step[OF extends_validHandle[OF v e3] extends_getT[OF e3 t] st3])
    have "elems h3 s1 = out[i := x]" by (simp add: elems_def s1_def b1 n_def)
    moreover have "elems h3 s2 = out" by (simp add: elems_def s2_def b2 n_def)
    ultimately show ?thesis using w st3 o3 elems_new[of h3 out "length out"] by auto
  qed
  from o1 o2 el1 el2 el3 ne st2 mut show ?thesis by blast
qed

text \<open>Claim C8 on \<open>heap2\<close>: the first entry of the returned slice is overwritten.\<close>

theorem Output_is_copy_witness:
  "validHandle heap2 (Addr 2) \<and> getT heap2 (Addr 2) = Some root \<and>
   accState heap2 (context root) =
     Some (2, [''example_test.go:17: was not positive'', ''example_test.go:17: was not even'']) \<and>
   (\<exists>s1 h1 s2 h2.
      Output (Addr 2) heap2 = (Return s1, h1) \<and> Output (Addr 2) h1 = (Return s2, h2) \<and>
      elems h1 s1 = [''example_test.go:17: was not positive'', ''example_test.go:17: was not even''] \<and>
      elems h2 s2 = elems h1 s1 \<and>
      (\<exists>h3. setIndex s1 0 ''overwritten'' h2 = (Return (), h3) \<and>
         elems h3 s1 = [''overwritten'', ''example_test.go:17: was not even''] \<and>
         accState h3 (context root) = accState heap2 (context root)))"
proof -
  from Output_is_copy[OF heap2_valid heap2_root heap2_state] obtain s1 h1 s2 h2 where
    o: "Output (Addr 2) heap2 = (Return s1, h1)" "Output (Addr 2) h1 = (Return s2, h2)"
      "elems h1 s1 = [''example_test.go:17: was not positive'', ''example_test.go:17: was not even'']"
      "elems h2 s2 = [''example_test.go:17: was not positive'', ''example_test.go:17: was not even'']"
    and m: "\<forall>i x. i < length [''example_test.go:17: was not positive'', ''example_test.go:17: was not even''] \<longrightarrow>
              (\<exists>h3. setIndex s1 i x h2 = (Return (), h3) \<and>
                 elems h3 s1 = [''example_test.go:17: was not positive'', ''example_test.go:17: was not even''][i := x] \<and>
                 elems h3 s2 = [''example_test.go:17: was not positive'', ''example_test.go:17: was not even''] \<and>
                 accState h3 (context root) = Some (2, [''example_test.go:17: was not positive'', ''example_test.go:17: was not even'']) \<and>
                 (\<exists>s4 h4. Output (Addr 2) h3 = (Return s4, h4) \<and> elems h4 s4 = [''example_test.go:17: was not positive'', ''example_test.go:17: was not even'']))"
    by blast
  from m[rule_format, of 0 "''overwritten''"] obtain h3 where
    h3: "setIndex s1 0 ''overwritten'' h2 = (Return (), h3)"
      "elems h3 s1 = [''overwritten'', ''example_test.go:17: was not even'']"
      "accState h3 (context root) = Some (2, [''example_test.go:17: was not positive'', ''example_test.go:17: was not even''])"
    by auto
  from o h3 heap2_valid heap2_root heap2_state show ?thesis by auto
qed

end
